theory Spec2Isabelle
  imports Main "HOL-Library.Sublist" "HOL-Library.Char_ord" "HOL-Library.List_Lexorder"
begin

section \<open>Go strings as byte lists\<close>

text \<open>
  A Go \<open>string\<close> is a sequence of bytes, and \<open>len\<close>, indexing and slicing count bytes;
  the model uses \<^typ>\<open>string\<close> (a list of 8-bit characters). The functions of this
  section are the ones of Go's \<open>strings\<close> package that obsidian-preview.go calls.
\<close>

text \<open>\<open>strings.HasPrefix(s, p)\<close>.\<close>

definition hasPrefix :: "string \<Rightarrow> string \<Rightarrow> bool" where
  "hasPrefix s p = prefix p s"

text \<open>
  \<open>strings.Index(s, pat)\<close>: the byte offset of the first occurrence of \<open>pat\<close> in \<open>s\<close>;
  Go's \<open>-1\<close> is \<open>None\<close>.
\<close>

fun strIndex :: "string \<Rightarrow> string \<Rightarrow> nat option" where
  "strIndex [] pat = (if pat = [] then Some 0 else None)"
| "strIndex (c # cs) pat =
     (if prefix pat (c # cs) then Some 0 else map_option Suc (strIndex cs pat))"

text \<open>\<open>strings.Contains(s, sub)\<close> is \<open>strings.Index(s, sub) >= 0\<close>.\<close>

definition strContains :: "string \<Rightarrow> string \<Rightarrow> bool" where
  "strContains s sub = (strIndex s sub \<noteq> None)"

text \<open>
  \<open>strings.ReplaceAll(s, old, new)\<close> replaces the non-overlapping occurrences of
  \<open>old\<close> from left to right. The program only passes non-empty constants as \<open>old\<close>;
  the empty \<open>old\<close> (which Go treats rune by rune) is not needed and left as the identity.
\<close>

function replaceAll :: "string \<Rightarrow> string \<Rightarrow> string \<Rightarrow> string" where
  "replaceAll s old new =
     (if old = [] \<or> s = [] then s
      else if prefix old s then new @ replaceAll (drop (length old) s) old new
      else hd s # replaceAll (tl s) old new)"
  by pat_completeness auto
termination
  by (relation "measure (\<lambda>(s, old, new). length s)") (auto simp: neq_Nil_conv)

declare replaceAll.simps [simp del]

text \<open>
  \<open>strings.Replace(s, old, new, 1)\<close>: only the first occurrence of \<open>old\<close> is replaced.
\<close>

definition replaceFirst :: "string \<Rightarrow> string \<Rightarrow> string \<Rightarrow> string" where
  "replaceFirst s old new =
     (case strIndex s old of
        None \<Rightarrow> s
      | Some i \<Rightarrow> take i s @ new @ drop (i + length old) s)"

text \<open>
  \<open>strings.TrimSpace\<close> removes the leading and trailing white space, as Unicode
  defines it (\<open>unicode.IsSpace\<close>). On bytes these are the six ASCII characters
  tab, line feed, vertical tab, form feed, carriage return and space, and the UTF-8
  encodings of U+0085, U+00A0, U+1680, U+2000 to U+200A, U+2028, U+2029, U+202F, U+205F
  and U+3000.
\<close>

definition spaceRunes :: "string list" where
  "spaceRunes =
     [[CHR 0x09], [CHR 0x0A], [CHR 0x0B], [CHR 0x0C], [CHR 0x0D], [CHR 0x20],
      [CHR 0xC2, CHR 0x85], [CHR 0xC2, CHR 0xA0],
      [CHR 0xE1, CHR 0x9A, CHR 0x80],
      [CHR 0xE2, CHR 0x80, CHR 0x80], [CHR 0xE2, CHR 0x80, CHR 0x81],
      [CHR 0xE2, CHR 0x80, CHR 0x82], [CHR 0xE2, CHR 0x80, CHR 0x83],
      [CHR 0xE2, CHR 0x80, CHR 0x84], [CHR 0xE2, CHR 0x80, CHR 0x85],
      [CHR 0xE2, CHR 0x80, CHR 0x86], [CHR 0xE2, CHR 0x80, CHR 0x87],
      [CHR 0xE2, CHR 0x80, CHR 0x88], [CHR 0xE2, CHR 0x80, CHR 0x89],
      [CHR 0xE2, CHR 0x80, CHR 0x8A],
      [CHR 0xE2, CHR 0x80, CHR 0xA8], [CHR 0xE2, CHR 0x80, CHR 0xA9],
      [CHR 0xE2, CHR 0x80, CHR 0xAF], [CHR 0xE2, CHR 0x81, CHR 0x9F],
      [CHR 0xE3, CHR 0x80, CHR 0x80]]"

text \<open>
  \<open>stripRunes rs s\<close> removes from the front of \<open>s\<close> every leading occurrence of one
  of the (non-empty) byte sequences \<open>rs\<close>.
\<close>

function stripRunes :: "string list \<Rightarrow> string \<Rightarrow> string" where
  "stripRunes rs s =
     (case find (\<lambda>r. r \<noteq> [] \<and> prefix r s) rs of
        None \<Rightarrow> s
      | Some r \<Rightarrow> stripRunes rs (drop (length r) s))"
  by pat_completeness auto
termination
proof (relation "measure (\<lambda>(rs, s). length s)")
  show "wf (measure (\<lambda>(rs, s). length s))" by simp
next
  fix rs :: "string list" and s r :: string
  assume "find (\<lambda>r. r \<noteq> [] \<and> prefix r s) rs = Some r"
  then have "r \<noteq> []" and "prefix r s"
    by (auto simp: find_Some_iff)
  then have "s \<noteq> []" by auto
  with \<open>r \<noteq> []\<close> show "((rs, drop (length r) s), (rs, s)) \<in> measure (\<lambda>(rs, s). length s)"
    by simp
qed

declare stripRunes.simps [simp del]

definition trimSpace :: "string \<Rightarrow> string" where
  "trimSpace s = rev (stripRunes (map rev spaceRunes) (rev (stripRunes spaceRunes s)))"

text \<open>
  A slice expression \<open>s[a:b]\<close> panics unless \<open>a \<le> b \<le> len(s)\<close>; \<open>None\<close> is the panic.
\<close>

definition goSlice :: "string \<Rightarrow> nat \<Rightarrow> nat \<Rightarrow> string option" where
  "goSlice s a b = (if a \<le> b \<and> b \<le> length s then Some (take (b - a) (drop a s)) else None)"

subsection \<open>Facts about the string functions\<close>

lemma strIndex_Some_prefix:
  "strIndex s pat = Some i \<Longrightarrow> prefix pat (drop i s) \<and> i \<le> length s"
  by (induction s arbitrary: i) (auto split: if_splits)

lemma strIndex_Some_first:
  "strIndex s pat = Some i \<Longrightarrow> j < i \<Longrightarrow> \<not> prefix pat (drop j s)"
proof (induction s arbitrary: i j)
  case Nil
  then show ?case by (auto split: if_splits)
next
  case (Cons c cs)
  then show ?case
    by (cases j) (auto split: if_splits)
qed

lemma strIndex_None_iff:
  "strIndex s pat = None \<longleftrightarrow> (\<forall>j \<le> length s. \<not> prefix pat (drop j s))"
proof (induction s)
  case Nil
  then show ?case by auto
next
  case (Cons c cs)
  show ?case
  proof
    assume a: "strIndex (c # cs) pat = None"
    then have n0: "\<not> prefix pat (c # cs)" and n1: "strIndex cs pat = None"
      by (auto split: if_splits)
    show "\<forall>j \<le> length (c # cs). \<not> prefix pat (drop j (c # cs))"
    proof (intro allI impI)
      fix j assume "j \<le> length (c # cs)"
      then show "\<not> prefix pat (drop j (c # cs))"
        using n0 n1 Cons.IH by (cases j) auto
    qed
  next
    assume a: "\<forall>j \<le> length (c # cs). \<not> prefix pat (drop j (c # cs))"
    then have "\<not> prefix pat (c # cs)" by (metis drop0 le0)
    moreover have "\<forall>j \<le> length cs. \<not> prefix pat (drop j cs)"
    proof (intro allI impI)
      fix j assume "j \<le> length cs"
      then have "\<not> prefix pat (drop (Suc j) (c # cs))" using a by (metis Suc_le_mono length_Cons)
      then show "\<not> prefix pat (drop j cs)" by simp
    qed
    ultimately show "strIndex (c # cs) pat = None" using Cons.IH by simp
  qed
qed

lemma strIndex_SomeI:
  "prefix pat (drop i s) \<Longrightarrow> i \<le> length s \<Longrightarrow> (\<And>j. j < i \<Longrightarrow> \<not> prefix pat (drop j s))
   \<Longrightarrow> strIndex s pat = Some i"
proof (induction s arbitrary: i)
  case Nil
  then show ?case by auto
next
  case (Cons c cs)
  show ?case
  proof (cases i)
    case 0
    with Cons.prems show ?thesis by simp
  next
    case (Suc k)
    have n0: "\<not> prefix pat (c # cs)" using Cons.prems(3)[of 0] Suc by simp
    have "strIndex cs pat = Some k"
    proof (rule Cons.IH)
      show "prefix pat (drop k cs)" using Cons.prems(1) Suc by simp
      show "k \<le> length cs" using Cons.prems(2) Suc by simp
      fix j assume "j < k"
      then show "\<not> prefix pat (drop j cs)" using Cons.prems(3)[of "Suc j"] Suc by simp
    qed
    with n0 Suc show ?thesis by simp
  qed
qed

lemma strIndex_Some_iff:
  "strIndex s pat = Some i \<longleftrightarrow>
     i \<le> length s \<and> prefix pat (drop i s) \<and> (\<forall>j < i. \<not> prefix pat (drop j s))"
  using strIndex_Some_prefix strIndex_Some_first strIndex_SomeI by blast

lemma length_replaceAll:
  "length new \<le> length old \<Longrightarrow> length (replaceAll s old new) \<le> length s"
proof (induction s old new rule: replaceAll.induct)
  case (1 s old new)
  show ?case
  proof (cases "old = [] \<or> s = []")
    case True
    then show ?thesis by (subst replaceAll.simps) simp
  next
    case False
    show ?thesis
    proof (cases "prefix old s")
      case True
      then have "length old \<le> length s" by (simp add: prefix_length_le)
      with 1 False True show ?thesis
        by (subst replaceAll.simps) (simp)
    next
      case nf: False
      from False obtain c cs where s: "s = c # cs" by (cases s) auto
      with 1 False nf have "length (replaceAll cs old new) \<le> length cs" by simp
      with s False nf show ?thesis
        by (subst replaceAll.simps) simp
    qed
  qed
qed

lemma length_stripRunes: "length (stripRunes rs s) \<le> length s"
proof (induction rs s rule: stripRunes.induct)
  case (1 rs s)
  show ?case
  proof (cases "find (\<lambda>r. r \<noteq> [] \<and> prefix r s) rs")
    case None
    then show ?thesis by (subst stripRunes.simps) simp
  next
    case (Some r)
    with 1 have "length (stripRunes rs (drop (length r) s)) \<le> length (drop (length r) s)" by simp
    with Some show ?thesis by (subst stripRunes.simps) simp
  qed
qed

lemma length_trimSpace: "length (trimSpace s) \<le> length s"
proof -
  have "length (trimSpace s) \<le> length (rev (stripRunes spaceRunes s))"
    unfolding trimSpace_def using length_stripRunes[of "map rev spaceRunes" "rev (stripRunes spaceRunes s)"] by simp
  also have "\<dots> \<le> length s" using length_stripRunes by simp
  finally show ?thesis .
qed

lemma strIndex_split:
  assumes "strIndex s pat = Some i"
  shows "s = take i s @ pat @ drop (i + length pat) s"
proof -
  from assms have "prefix pat (drop i s)" by (simp add: strIndex_Some_prefix)
  then obtain r where r: "drop i s = pat @ r" by (auto simp: prefix_def)
  then have "drop (i + length pat) s = r"
    by (metis add.commute append_eq_conv_conj drop_drop)
  with r show ?thesis by (metis append_take_drop_id)
qed

lemma strIndex_drop_eq:
  assumes "strIndex s pat = Some i"
  shows "drop i s = pat @ drop (i + length pat) s"
  using strIndex_split[OF assms]
  by (metis append_eq_conv_conj assms length_take min.absorb2 strIndex_Some_prefix)

lemma prefix_append_long:
  assumes "length p \<le> length x"
  shows "prefix p (x @ z) \<longleftrightarrow> prefix p x"
proof
  assume "prefix p (x @ z)"
  then obtain zs where "x @ z = p @ zs" by (auto simp: prefix_def)
  then have "take (length p) (x @ z) = p" by simp
  then have "take (length p) x = p" using assms by simp
  then show "prefix p x" by (metis take_is_prefix)
next
  assume "prefix p x"
  then show "prefix p (x @ z)" by (simp add: prefix_append)
qed

lemma strIndex_occurs:
  "strIndex (p @ pat @ z) pat \<noteq> None"
proof -
  have "prefix pat (drop (length p) (p @ pat @ z))" by simp
  then show ?thesis
    using strIndex_None_iff[of "p @ pat @ z" pat] by (metis le_add1 length_append)
qed

lemma strIndex_occurs_le:
  assumes "strIndex (p @ pat @ z) pat = Some i"
  shows "i \<le> length p"
proof (rule ccontr)
  assume "\<not> i \<le> length p"
  then have "length p < i" by simp
  from strIndex_Some_first[OF assms this] show False by simp
qed

lemma strIndex_append_local:
  assumes "strIndex (a @ pat) pat = Some (length a)"
  shows "strIndex (a @ pat @ z) pat = Some (length a)"
proof (rule strIndex_SomeI)
  show "prefix pat (drop (length a) (a @ pat @ z))" by simp
  show "length a \<le> length (a @ pat @ z)" by simp
  fix j assume j: "j < length a"
  have "\<not> prefix pat (drop j (a @ pat))" using strIndex_Some_first[OF assms j] .
  then have n: "\<not> prefix pat (drop j a @ pat)" using j by simp
  have "prefix pat ((drop j a @ pat) @ z) \<longleftrightarrow> prefix pat (drop j a @ pat)"
    by (rule prefix_append_long) simp
  with n show "\<not> prefix pat (drop j (a @ pat @ z))" using j by simp
qed

lemma strIndex_char_notin:
  "strIndex s [c] = Some i \<Longrightarrow> c \<notin> set (take i s)"
proof (induction s arbitrary: i)
  case Nil
  then show ?case by simp
next
  case (Cons x xs)
  then show ?case by (cases i) (auto split: if_splits)
qed

lemma strIndex_charI:
  "c \<notin> set a \<Longrightarrow> strIndex (a @ c # z) [c] = Some (length a)"
  by (induction a) auto

lemma strIndex_char_None:
  "strIndex s [c] = None \<longleftrightarrow> c \<notin> set s"
  by (induction s) auto

lemma strIndex_char_split:
  assumes "strIndex s [c] = Some i"
  shows "s = take i s @ c # drop (Suc i) s"
  using strIndex_split[OF assms] by simp

lemma strIndex_prefix_local:
  assumes "strIndex (a @ pat @ y) pat = Some (length a)"
  shows "strIndex (a @ pat @ z) pat = Some (length a)"
proof (rule strIndex_SomeI)
  show "prefix pat (drop (length a) (a @ pat @ z))" by simp
  show "length a \<le> length (a @ pat @ z)" by simp
  fix j assume j: "j < length a"
  have "\<not> prefix pat (drop j (a @ pat @ y))" using strIndex_Some_first[OF assms j] .
  then have n: "\<not> prefix pat ((drop j a @ pat) @ y)" using j by simp
  have "prefix pat ((drop j a @ pat) @ y) \<longleftrightarrow> prefix pat (drop j a @ pat)"
    by (rule prefix_append_long) simp
  moreover have "prefix pat ((drop j a @ pat) @ z) \<longleftrightarrow> prefix pat (drop j a @ pat)"
    by (rule prefix_append_long) simp
  ultimately show "\<not> prefix pat (drop j (a @ pat @ z))" using n j by simp
qed

lemma strContains_append:
  "strContains (a @ pat @ z) pat"
  using strIndex_occurs[of a pat z] by (simp add: strContains_def)

section \<open>Diagram blocks: \<open>processMermaidBlocks\<close>\<close>

definition openLang :: string where
  \<open>openLang = ''<pre><code class="language-mermaid">''\<close>

definition openPlain :: string where
  \<open>openPlain = ''<pre><code class="mermaid">''\<close>

definition endTag :: string where
  "endTag = ''</code></pre>''"

definition classMermaid :: string where
  \<open>classMermaid = ''class="mermaid"''\<close>

definition divOpen :: string where
  \<open>divOpen = ''<div class="mermaid">''\<close>

definition divClose :: string where
  "divClose = ''</div>''"

text \<open>
  The clean-up of the block's text: the three entity replacements in the source's
  order, then \<open>strings.TrimSpace\<close>.
\<close>

definition decodeEntities :: "string \<Rightarrow> string" where
  "decodeEntities codeContent =
     replaceAll (replaceAll (replaceAll codeContent ''&lt;'' ''<'') ''&gt;'' ''>'') ''&amp;'' ''&''"

definition cleanCode :: "string \<Rightarrow> string" where
  "cleanCode codeContent = trimSpace (decodeEntities codeContent)"

text \<open>
  One pass through the body of the \<open>for\<close> loop of \<open>processMermaidBlocks\<close>. \<open>Break\<close> is
  either of the two \<open>break\<close> statements, \<open>Continue c\<close> the end of the body with the
  new value of \<open>content\<close>, \<open>Panic\<close> a slice out of range.
\<close>

datatype loop_step = Break | Continue string | Panic

definition findOpen :: "string \<Rightarrow> nat option" where
  "findOpen content =
     (case strIndex content openLang of
        Some start \<Rightarrow> Some start
      | None \<Rightarrow> strIndex content openPlain)"

definition mermaidStep :: "string \<Rightarrow> loop_step" where
  "mermaidStep content =
     (case findOpen content of
        None \<Rightarrow> Break
      | Some start \<Rightarrow>
         (case strIndex (drop start content) endTag of
            None \<Rightarrow> Break
          | Some e \<Rightarrow>
             (let end = e + start + length endTag;
                  codeStart0 = start + length openLang
              in case goSlice content start codeStart0 of
                   None \<Rightarrow> Panic
                 | Some opening \<Rightarrow>
                    (let codeStart =
                           (if strContains opening classMermaid
                            then start + length openPlain else codeStart0)
                     in case goSlice content codeStart (end - length endTag) of
                          None \<Rightarrow> Panic
                        | Some codeContent \<Rightarrow>
                            Continue (take start content
                                      @ (divOpen @ cleanCode codeContent @ divClose)
                                      @ drop end content)))))"

lemma length_cleanCode: "length (cleanCode s) \<le> length s"
proof -
  have "length (decodeEntities s) \<le> length s"
    unfolding decodeEntities_def
    by (rule order_trans[OF length_replaceAll] | simp)+
  then show ?thesis
    unfolding cleanCode_def using length_trimSpace order_trans by blast
qed

text \<open>
  A block is an opening marker, a body and the closing tag; the closing tag that ends
  it is the first one after the opening marker, so the body holds no closing tag
  (not even one that overlaps the block's own).
\<close>

definition blockBody :: "string \<Rightarrow> bool" where
  "blockBody body = (strIndex (body @ endTag) endTag = Some (length body))"

subsection \<open>One iteration of the loop\<close>

lemma endTag_after_openLang:
  "strIndex (openLang @ rest) endTag = map_option (\<lambda>n. n + length openLang) (strIndex rest endTag)"
  by (simp add: openLang_def endTag_def option.map_comp comp_def)

lemma endTag_after_openPlain:
  "strIndex (openPlain @ rest) endTag = map_option (\<lambda>n. n + length openPlain) (strIndex rest endTag)"
  by (simp add: openPlain_def endTag_def option.map_comp comp_def)

lemma openLang_no_classMermaid: "\<not> strContains openLang classMermaid"
  by (simp add: openLang_def classMermaid_def strContains_def)

lemma openPlain_classMermaid: "strContains (openPlain @ X) classMermaid"
  by (simp add: openPlain_def classMermaid_def strContains_def)

lemma length_openLang [simp]: "length openLang = 36" by (simp add: openLang_def)
lemma length_openPlain [simp]: "length openPlain = 27" by (simp add: openPlain_def)
lemma length_endTag [simp]: "length endTag = 13" by (simp add: endTag_def)
lemma length_divOpen [simp]: "length divOpen = 21" by (simp add: divOpen_def)
lemma length_divClose [simp]: "length divClose = 6" by (simp add: divClose_def)

text \<open>The block the loop body works on, once the opening marker is located.\<close>

lemma mermaidStep_opener:
  assumes fo: "findOpen content = Some start"
    and d: "drop start content = opener @ rest"
    and sk: "\<And>r. strIndex (opener @ r) endTag = map_option (\<lambda>n. n + length opener) (strIndex r endTag)"
    and cm: "\<And>r. 13 \<le> length r \<Longrightarrow>
               strContains (take 36 (opener @ r)) classMermaid = (length opener = 27)"
    and lo: "length opener = 36 \<or> length opener = 27"
  shows "mermaidStep content =
    (case strIndex rest endTag of
       None \<Rightarrow> Break
     | Some e \<Rightarrow> Continue (take start content
                   @ (divOpen @ cleanCode (take e rest) @ divClose)
                   @ drop (e + length endTag) rest))"
proof -
  have sl: "start \<le> length content"
    using d by (metis append_is_Nil_conv drop_all lo le_cases list.size(3) zero_neq_numeral)
  have len: "start + length opener + length rest = length content"
    using d sl by (metis add.assoc le_add_diff_inverse length_append length_drop)
  have r: "rest = drop (start + length opener) content"
    using d by (metis add.commute append_eq_conv_conj drop_drop)
  show ?thesis
  proof (cases "strIndex rest endTag")
    case None
    then show ?thesis
      using fo d sk[of rest] by (simp add: mermaidStep_def)
  next
    case (Some e)
    then have e: "strIndex (drop start content) endTag = Some (e + length opener)"
      using d sk[of rest] by simp
    have el: "e + 13 \<le> length rest"
      using strIndex_Some_prefix[OF Some] prefix_length_le[of endTag "drop e rest"] by simp
    define opn where "opn = take 36 (opener @ rest)"
    have "take 36 (drop start content) = opn" using d opn_def by simp
    then have s1: "goSlice content start (start + 36) = Some opn"
      using len el lo by (auto simp add: goSlice_def)
    have c: "strContains opn classMermaid = (length opener = 27)"
      using cm[of rest] el opn_def by simp
    have s2: "goSlice content (start + length opener) (e + length opener + start) = Some (take e rest)"
      using len el by (simp add: goSlice_def r add.commute)
    have dr: "drop (e + length opener + start + 13) content = drop (e + 13) rest"
      by (simp add: r add.commute add.left_commute)
    from lo show ?thesis
    proof
      assume l: "length opener = 36"
      then have "\<not> strContains opn classMermaid" using c by simp
      then show ?thesis
        using fo e s1 s2 dr Some l
        by (simp add: mermaidStep_def Let_def ac_simps)
    next
      assume l: "length opener = 27"
      then have "strContains opn classMermaid" using c by simp
      then show ?thesis
        using fo e s1 s2 dr Some l
        by (simp add: mermaidStep_def Let_def ac_simps)
    qed
  qed
qed

lemma mermaidStep_lang:
  assumes "strIndex content openLang = Some start"
  shows "mermaidStep content =
    (case strIndex (drop (start + length openLang) content) endTag of
       None \<Rightarrow> Break
     | Some e \<Rightarrow> Continue (take start content
                   @ (divOpen @ cleanCode (take e (drop (start + length openLang) content)) @ divClose)
                   @ drop (e + length endTag) (drop (start + length openLang) content)))"
proof (rule mermaidStep_opener)
  show "findOpen content = Some start" using assms by (simp add: findOpen_def)
  show "drop start content = openLang @ drop (start + length openLang) content"
    using strIndex_drop_eq[OF assms] .
  show "\<And>r. strIndex (openLang @ r) endTag = map_option (\<lambda>n. n + length openLang) (strIndex r endTag)"
    by (rule endTag_after_openLang)
  show "\<And>r. 13 \<le> length r \<Longrightarrow>
               strContains (take 36 (openLang @ r)) classMermaid = (length openLang = 27)"
    using openLang_no_classMermaid by simp
  show "length openLang = 36 \<or> length openLang = 27" by simp
qed

lemma mermaidStep_plain:
  assumes "strIndex content openLang = None" and "strIndex content openPlain = Some start"
  shows "mermaidStep content =
    (case strIndex (drop (start + length openPlain) content) endTag of
       None \<Rightarrow> Break
     | Some e \<Rightarrow> Continue (take start content
                   @ (divOpen @ cleanCode (take e (drop (start + length openPlain) content)) @ divClose)
                   @ drop (e + length endTag) (drop (start + length openPlain) content)))"
proof (rule mermaidStep_opener)
  show "findOpen content = Some start" using assms by (simp add: findOpen_def)
  show "drop start content = openPlain @ drop (start + length openPlain) content"
    using strIndex_drop_eq[OF assms(2)] .
  show "\<And>r. strIndex (openPlain @ r) endTag = map_option (\<lambda>n. n + length openPlain) (strIndex r endTag)"
    by (rule endTag_after_openPlain)
  show "\<And>r. 13 \<le> length r \<Longrightarrow>
               strContains (take 36 (openPlain @ r)) classMermaid = (length openPlain = 27)"
    using openPlain_classMermaid[of "take 9 r" for r] by simp
  show "length openPlain = 36 \<or> length openPlain = 27" by simp
qed

lemma mermaidStep_cases:
  obtains (none) "findOpen content = None" "mermaidStep content = Break"
  | (unclosed) start opener where "findOpen content = Some start"
      "opener = openLang \<or> opener = openPlain"
      "drop start content = opener @ drop (start + length opener) content"
      "strIndex (drop (start + length opener) content) endTag = None"
      "mermaidStep content = Break"
  | (block) start opener e where "findOpen content = Some start"
      "opener = openLang \<or> opener = openPlain"
      "drop start content = opener @ drop (start + length opener) content"
      "strIndex (drop (start + length opener) content) endTag = Some e"
      "mermaidStep content = Continue (take start content
                   @ (divOpen @ cleanCode (take e (drop (start + length opener) content)) @ divClose)
                   @ drop (e + length endTag) (drop (start + length opener) content))"
proof (cases "strIndex content openLang")
  case None
  note nl = this
  show ?thesis
  proof (cases "strIndex content openPlain")
    case None
    with nl have "findOpen content = None" by (simp add: findOpen_def)
    then show ?thesis using none by (simp add: mermaidStep_def)
  next
    case (Some start)
    have fo: "findOpen content = Some start" using nl Some by (simp add: findOpen_def)
    show ?thesis
    proof (cases "strIndex (drop (start + length openPlain) content) endTag")
      case None
      then show ?thesis
        using unclosed[of start openPlain] fo mermaidStep_plain[OF nl Some] strIndex_drop_eq[OF Some]
        by simp
    next
      case (Some e)
      then show ?thesis
        using block[of start openPlain e] fo mermaidStep_plain[OF nl \<open>strIndex content openPlain = Some start\<close>]
          strIndex_drop_eq[OF \<open>strIndex content openPlain = Some start\<close>]
        by simp
    qed
  qed
next
  case (Some start)
  have fo: "findOpen content = Some start" using Some by (simp add: findOpen_def)
  show ?thesis
  proof (cases "strIndex (drop (start + length openLang) content) endTag")
    case None
    then show ?thesis
      using unclosed[of start openLang] fo mermaidStep_lang[OF Some] strIndex_drop_eq[OF Some]
      by simp
  next
    case (Some e)
    then show ?thesis
      using block[of start openLang e] fo mermaidStep_lang[OF \<open>strIndex content openLang = Some start\<close>]
        strIndex_drop_eq[OF \<open>strIndex content openLang = Some start\<close>]
      by simp
  qed
qed

lemma mermaidStep_no_panic: "mermaidStep content \<noteq> Panic"
  by (cases content rule: mermaidStep_cases) simp_all

lemma mermaidStep_shorter:
  assumes "mermaidStep content = Continue content'"
  shows "length content' < length content"
proof (cases content rule: mermaidStep_cases)
  case none
  with assms show ?thesis by simp
next
  case (unclosed start opener)
  with assms show ?thesis by simp
next
  case (block start opener e)
  define rest where "rest = drop (start + length opener) content"
  have el: "e + 13 \<le> length rest"
    using block(4) strIndex_Some_prefix[of rest endTag e] prefix_length_le[of endTag "drop e rest"]
    by (simp add: rest_def)
  have lo: "27 \<le> length opener" using block(2) by auto
  have "length (drop start content) = length opener + length rest"
    using block(3) rest_def by (metis length_append)
  then have len: "length content = start + length opener + length rest"
    using lo by (simp)
  have cc: "length (cleanCode (take e rest)) \<le> e"
    using length_cleanCode[of "take e rest"] el by simp
  have "content' = take start content @ (divOpen @ cleanCode (take e rest) @ divClose)
                   @ drop (e + length endTag) rest"
    using assms block(5) rest_def by simp
  then have "length content' = start + (21 + length (cleanCode (take e rest)) + 6) + (length rest - (e + 13))"
    using len by simp
  with cc el len lo show ?thesis by linarith
qed

subsection \<open>The loop\<close>

text \<open>
  The \<open>for\<close> loop of \<open>processMermaidBlocks\<close> has no counter: it runs until one of the
  two \<open>break\<close>s. The recursion below is well-founded because every pass that reaches
  the end of the body leaves a shorter \<open>content\<close>. \<open>None\<close> is a run-time panic.
\<close>

function processMermaidBlocks :: "string \<Rightarrow> string option" where
  "processMermaidBlocks content =
     (case mermaidStep content of
        Break \<Rightarrow> Some content
      | Panic \<Rightarrow> None
      | Continue content' \<Rightarrow> processMermaidBlocks content')"
  by pat_completeness auto
termination
  by (relation "measure length") (auto simp: mermaidStep_shorter)

declare processMermaidBlocks.simps [simp del]

subsection \<open>Facts about the loop\<close>

lemma processMermaidBlocks_total: "\<exists>r. processMermaidBlocks content = Some r"
proof (induction content rule: processMermaidBlocks.induct)
  case (1 content)
  show ?case
  proof (cases "mermaidStep content")
    case Break
    then show ?thesis by (subst processMermaidBlocks.simps) simp
  next
    case (Continue c')
    with 1 show ?thesis by (subst processMermaidBlocks.simps) simp
  next
    case Panic
    then show ?thesis using mermaidStep_no_panic by simp
  qed
qed

lemma processMermaidBlocks_Break: "processMermaidBlocks content = Some r \<Longrightarrow> mermaidStep r = Break"
proof (induction content rule: processMermaidBlocks.induct)
  case (1 content)
  show ?case
  proof (cases "mermaidStep content")
    case Break
    with 1(2) show ?thesis by (subst (asm) processMermaidBlocks.simps) simp
  next
    case (Continue c')
    with 1(2) have "processMermaidBlocks c' = Some r"
      by (subst (asm) processMermaidBlocks.simps) simp
    with 1(1) Continue show ?thesis by simp
  next
    case Panic
    then show ?thesis using mermaidStep_no_panic by simp
  qed
qed

lemma processMermaidBlocks_step:
  "mermaidStep content = Continue content' \<Longrightarrow>
   processMermaidBlocks content = processMermaidBlocks content'"
  by (subst processMermaidBlocks.simps) simp

lemma processMermaidBlocks_fix:
  "mermaidStep content = Break \<Longrightarrow> processMermaidBlocks content = Some content"
  by (subst processMermaidBlocks.simps) simp

lemma mermaidStep_ContinueD:
  assumes "mermaidStep content = Continue content'"
  shows "\<exists>pre opener body post.
           (opener = openLang \<or> opener = openPlain) \<and>
           content = pre @ opener @ body @ endTag @ post \<and>
           content' = pre @ divOpen @ cleanCode body @ divClose @ post"
proof (cases content rule: mermaidStep_cases)
  case none
  with assms show ?thesis by simp
next
  case (unclosed start opener)
  with assms show ?thesis by simp
next
  case (block start opener e)
  define rest where "rest = drop (start + length opener) content"
  have r: "rest = take e rest @ endTag @ drop (e + length endTag) rest"
    using strIndex_split[of rest endTag e] block(4) rest_def by simp
  have "content = take start content @ drop start content" by simp
  also have "\<dots> = take start content @ opener @ rest"
    using block(3) rest_def by simp
  finally have c: "content = take start content @ opener @ take e rest @ endTag @ drop (e + length endTag) rest"
    using r by simp
  have c': "content' = take start content @ divOpen @ cleanCode (take e rest) @ divClose @ drop (e + length endTag) rest"
    using assms block(5) rest_def by simp
  from block(2) c c' show ?thesis by blast
qed


lemma mermaidStep_block_lang:
  assumes f: "strIndex (pre @ openLang @ body @ endTag @ post) openLang = Some (length pre)"
    and b: "blockBody body"
  shows "mermaidStep (pre @ openLang @ body @ endTag @ post)
         = Continue (pre @ divOpen @ cleanCode body @ divClose @ post)"
proof -
  have e: "strIndex (body @ endTag @ post) endTag = Some (length body)"
    using strIndex_append_local[of body endTag post] b by (simp add: blockBody_def)
  show ?thesis
    using mermaidStep_lang[OF f] e by simp
qed

lemma mermaidStep_block_plain:
  assumes n: "strIndex (pre @ openPlain @ body @ endTag @ post) openLang = None"
    and f: "strIndex (pre @ openPlain @ body @ endTag @ post) openPlain = Some (length pre)"
    and b: "blockBody body"
  shows "mermaidStep (pre @ openPlain @ body @ endTag @ post)
         = Continue (pre @ divOpen @ cleanCode body @ divClose @ post)"
proof -
  have e: "strIndex (body @ endTag @ post) endTag = Some (length body)"
    using strIndex_append_local[of body endTag post] b by (simp add: blockBody_def)
  show ?thesis
    using mermaidStep_plain[OF n f] e by simp
qed

lemma Break_no_lang_block:
  assumes "mermaidStep r = Break"
  shows "r \<noteq> p @ openLang @ b @ endTag @ q"
proof
  assume r: "r = p @ openLang @ b @ endTag @ q"
  then obtain start where s: "strIndex r openLang = Some start"
    using strIndex_occurs[of p openLang "b @ endTag @ q"] by auto
  have sp: "start \<le> length p" using strIndex_occurs_le s r by blast
  have n: "strIndex (drop (start + length openLang) r) endTag = None"
    using mermaidStep_lang[OF s] assms by (simp split: option.splits)
  define j where "j = length p - start + length b"
  have "drop (start + length openLang + j) r = endTag @ q"
    using sp r by (simp add: j_def)
  then have pf: "prefix endTag (drop j (drop (start + length openLang) r))"
    by (simp add: add.commute)
  have "j \<le> length (drop (start + length openLang) r)"
    using sp r by (simp add: j_def)
  with pf n show False using strIndex_None_iff by blast
qed

lemma Break_no_plain_block:
  assumes "mermaidStep r = Break" and nl: "strIndex r openLang = None"
  shows "r \<noteq> p @ openPlain @ b @ endTag @ q"
proof
  assume r: "r = p @ openPlain @ b @ endTag @ q"
  then obtain start where s: "strIndex r openPlain = Some start"
    using strIndex_occurs[of p openPlain "b @ endTag @ q"] by auto
  have sp: "start \<le> length p" using strIndex_occurs_le s r by blast
  have n: "strIndex (drop (start + length openPlain) r) endTag = None"
    using mermaidStep_plain[OF nl s] assms by (simp split: option.splits)
  define j where "j = length p - start + length b"
  have "drop (start + length openPlain + j) r = endTag @ q"
    using sp r by (simp add: j_def)
  then have pf: "prefix endTag (drop j (drop (start + length openPlain) r))"
    by (simp add: add.commute)
  have "j \<le> length (drop (start + length openPlain) r)"
    using sp r by (simp add: j_def)
  with pf n show False using strIndex_None_iff by blast
qed

subsection \<open>Termination\<close>

text \<open>
  C10: the Mermaid-block processor terminates on every input although its loop has no
  iteration ceiling. A pass of the loop that does not \<open>break\<close> replaces an opening
  marker, a body and the closing tag \<open></code></pre>\<close> by \<open><div class="mermaid">\<close>, the
  cleaned body and \<open></div>\<close>; the cleaned body is no longer than the body and the
  new delimiters are strictly shorter than the old ones, so \<open>content\<close> gets strictly
  shorter; hence the function returns a result (and never panics) on every string.
\<close>

theorem processMermaidBlocks_terminates:
  "(mermaidStep content = Continue content' \<longrightarrow>
      (\<exists>pre opener body post.
          (opener = openLang \<or> opener = openPlain) \<and>
          content = pre @ opener @ body @ endTag @ post \<and>
          content' = pre @ divOpen @ cleanCode body @ divClose @ post \<and>
          length (cleanCode body) \<le> length body \<and>
          length divOpen + length divClose < length opener + length endTag) \<and>
      length content' < length content)
   \<and> mermaidStep content \<noteq> Panic
   \<and> (\<exists>r. processMermaidBlocks content = Some r)"
proof (intro conjI impI)
  assume a: "mermaidStep content = Continue content'"
  from mermaidStep_ContinueD[OF a] obtain pre opener body post where
    o: "opener = openLang \<or> opener = openPlain" and
    c: "content = pre @ opener @ body @ endTag @ post" and
    c': "content' = pre @ divOpen @ cleanCode body @ divClose @ post"
    by blast
  have "length divOpen + length divClose < length opener + length endTag"
    using o by auto
  with o c c' length_cleanCode[of body]
  show "\<exists>pre opener body post.
          (opener = openLang \<or> opener = openPlain) \<and>
          content = pre @ opener @ body @ endTag @ post \<and>
          content' = pre @ divOpen @ cleanCode body @ divClose @ post \<and>
          length (cleanCode body) \<le> length body \<and>
          length divOpen + length divClose < length opener + length endTag"
    by blast
  show "length content' < length content" using a by (rule mermaidStep_shorter)
next
  show "mermaidStep content \<noteq> Panic" by (rule mermaidStep_no_panic)
  show "\<exists>r. processMermaidBlocks content = Some r" by (rule processMermaidBlocks_total)
qed

theorem processMermaidBlocks_terminates_witness:
  \<open>mermaidStep ''<pre><code class="mermaid"> A &amp; B </code></pre>''
     = Continue ''<div class="mermaid">A & B</div>''
   \<and> length ''<div class="mermaid">A & B</div>''
       < length ''<pre><code class="mermaid"> A &amp; B </code></pre>''
   \<and> processMermaidBlocks ''<pre><code class="mermaid"> A &amp; B </code></pre>''
       = Some ''<div class="mermaid">A & B</div>''\<close>
proof -
  have s: \<open>mermaidStep ''<pre><code class="mermaid"> A &amp; B </code></pre>''
             = Continue ''<div class="mermaid">A & B</div>''\<close>
    by code_simp
  have p: \<open>processMermaidBlocks ''<pre><code class="mermaid"> A &amp; B </code></pre>''
             = Some ''<div class="mermaid">A & B</div>''\<close>
    by code_simp
  from s processMermaidBlocks_terminates
    [of \<open>''<pre><code class="mermaid"> A &amp; B </code></pre>''\<close>
        \<open>''<div class="mermaid">A & B</div>''\<close>]
  have \<open>length ''<div class="mermaid">A & B</div>''
          < length ''<pre><code class="mermaid"> A &amp; B </code></pre>''\<close>
    by blast
  with s p show ?thesis by blast
qed

subsection \<open>Replacement of diagram blocks\<close>

text \<open>
  C6 (as amended): a pass of the loop works on the first \<open>language-mermaid\<close> block
  or, when the document holds no \<open>language-mermaid\<close> opening marker, on the first
  \<open>mermaid\<close> block, and replaces it by \<open><div class="mermaid">\<close>, the cleaned body and
  \<open></div>\<close>; the cleaned body is the body with \<open>&lt;\<close>, \<open>&gt;\<close>, \<open>&amp;\<close> decoded
  (in this order) and the surrounding white space trimmed. The loop goes on as long as
  the marker it selects has a closing tag after it: in the result no complete
  \<open>language-mermaid\<close> block is left, and no complete \<open>mermaid\<close> block is left unless a
  \<open>language-mermaid\<close> opening marker without closing tag remains. The block rendered
  from the source text \<open>A --> B\<close> yields the literal \<open>A --> B\<close>.
\<close>

theorem mermaid_block_replaced:
  \<open>(strIndex (pre @ openLang @ body @ endTag @ post) openLang = Some (length pre)
      \<and> blockBody body
     \<longrightarrow> mermaidStep (pre @ openLang @ body @ endTag @ post)
           = Continue (pre @ divOpen @ cleanCode body @ divClose @ post))
   \<and> (strIndex (pre @ openPlain @ body @ endTag @ post) openLang = None
      \<and> strIndex (pre @ openPlain @ body @ endTag @ post) openPlain = Some (length pre)
      \<and> blockBody body
     \<longrightarrow> mermaidStep (pre @ openPlain @ body @ endTag @ post)
           = Continue (pre @ divOpen @ cleanCode body @ divClose @ post))
   \<and> cleanCode body
       = trimSpace (replaceAll (replaceAll (replaceAll body ''&lt;'' ''<'') ''&gt;'' ''>'')
                      ''&amp;'' ''&'')
   \<and> (mermaidStep c = Continue c' \<longrightarrow> processMermaidBlocks c = processMermaidBlocks c')
   \<and> (mermaidStep c = Break \<longrightarrow> processMermaidBlocks c = Some c)
   \<and> (processMermaidBlocks c = Some r
     \<longrightarrow> mermaidStep r = Break
         \<and> (\<forall>p b q. r \<noteq> p @ openLang @ b @ endTag @ q)
         \<and> (strIndex r openLang = None \<longrightarrow> (\<forall>p b q. r \<noteq> p @ openPlain @ b @ endTag @ q)))
   \<and> processMermaidBlocks
         (''<pre><code class="language-mermaid">A --&gt; B'' @ [CHR 0x0A] @ ''</code></pre>''
          @ [CHR 0x0A])
       = Some (''<div class="mermaid">A --> B</div>'' @ [CHR 0x0A])\<close>
proof (intro conjI impI allI)
  assume "strIndex (pre @ openLang @ body @ endTag @ post) openLang = Some (length pre)
          \<and> blockBody body"
  then show "mermaidStep (pre @ openLang @ body @ endTag @ post)
             = Continue (pre @ divOpen @ cleanCode body @ divClose @ post)"
    using mermaidStep_block_lang by blast
next
  assume "strIndex (pre @ openPlain @ body @ endTag @ post) openLang = None
      \<and> strIndex (pre @ openPlain @ body @ endTag @ post) openPlain = Some (length pre)
      \<and> blockBody body"
  then show "mermaidStep (pre @ openPlain @ body @ endTag @ post)
             = Continue (pre @ divOpen @ cleanCode body @ divClose @ post)"
    using mermaidStep_block_plain by blast
next
  show "cleanCode body
       = trimSpace (replaceAll (replaceAll (replaceAll body ''&lt;'' ''<'') ''&gt;'' ''>'')
                      ''&amp;'' ''&'')"
    by (simp add: cleanCode_def decodeEntities_def)
next
  assume "mermaidStep c = Continue c'"
  then show "processMermaidBlocks c = processMermaidBlocks c'"
    by (rule processMermaidBlocks_step)
next
  assume "mermaidStep c = Break"
  then show "processMermaidBlocks c = Some c" by (rule processMermaidBlocks_fix)
next
  assume r: "processMermaidBlocks c = Some r"
  then show b: "mermaidStep r = Break" by (rule processMermaidBlocks_Break)
  fix p b q
  show "r \<noteq> p @ openLang @ b @ endTag @ q" using b by (rule Break_no_lang_block)
  assume "strIndex r openLang = None"
  with b show "r \<noteq> p @ openPlain @ b @ endTag @ q" by (rule Break_no_plain_block)
next
  show \<open>processMermaidBlocks
         (''<pre><code class="language-mermaid">A --&gt; B'' @ [CHR 0x0A] @ ''</code></pre>''
          @ [CHR 0x0A])
       = Some (''<div class="mermaid">A --> B</div>'' @ [CHR 0x0A])\<close>
    by code_simp
qed

theorem mermaid_block_replaced_witness:
  \<open>strIndex (''<p>x</p>'' @ openLang @ ''A --&gt; B '' @ endTag @ ''<p>y</p>'') openLang
     = Some (length ''<p>x</p>'')
   \<and> blockBody ''A --&gt; B ''
   \<and> mermaidStep (''<p>x</p>'' @ openLang @ ''A --&gt; B '' @ endTag @ ''<p>y</p>'')
       = Continue (''<p>x</p>'' @ divOpen @ ''A --> B'' @ divClose @ ''<p>y</p>'')
   \<and> strIndex (''<p>x</p>'' @ openPlain @ ''A --&gt; B '' @ endTag @ ''<p>y</p>'') openLang = None
   \<and> strIndex (''<p>x</p>'' @ openPlain @ ''A --&gt; B '' @ endTag @ ''<p>y</p>'') openPlain
       = Some (length ''<p>x</p>'')
   \<and> mermaidStep (''<p>x</p>'' @ openPlain @ ''A --&gt; B '' @ endTag @ ''<p>y</p>'')
       = Continue (''<p>x</p>'' @ divOpen @ ''A --> B'' @ divClose @ ''<p>y</p>'')
   \<and> processMermaidBlocks (''<p>x</p>'' @ openLang @ ''A --&gt; B '' @ endTag @ ''<p>y</p>'')
       = Some (''<p>x</p>'' @ divOpen @ ''A --> B'' @ divClose @ ''<p>y</p>'')
   \<and> mermaidStep (''<p>x</p>'' @ divOpen @ ''A --> B'' @ divClose @ ''<p>y</p>'') = Break
   \<and> strIndex (''<p>x</p>'' @ divOpen @ ''A --> B'' @ divClose @ ''<p>y</p>'') openLang = None
   \<and> (\<forall>p b q. ''<p>x</p>'' @ divOpen @ ''A --> B'' @ divClose @ ''<p>y</p>''
                 \<noteq> p @ openPlain @ b @ endTag @ q)\<close>
proof -
  let ?pre = "''<p>x</p>''" and ?body = "''A --&gt; B ''" and ?post = "''<p>y</p>''"
  let ?c = "?pre @ openLang @ ?body @ endTag @ ?post"
  let ?r = "?pre @ divOpen @ ''A --> B'' @ divClose @ ?post"
  have h1: "strIndex ?c openLang = Some (length ?pre)" by code_simp
  have h2: "blockBody ?body" by code_simp
  have h3: "strIndex (?pre @ openPlain @ ?body @ endTag @ ?post) openLang = None" by code_simp
  have h4: "strIndex (?pre @ openPlain @ ?body @ endTag @ ?post) openPlain = Some (length ?pre)"
    by code_simp
  have h5: "cleanCode ?body = ''A --> B''" by code_simp
  have h7: "strIndex ?r openLang = None" by code_simp
  have h8: "mermaidStep ?r = Break" by code_simp
  note t = mermaid_block_replaced[of ?pre ?body ?post ?c ?r ?r]
  note t' = mermaid_block_replaced[of ?pre ?body ?post ?r ?r ?r]
  from t h1 h2 h5
  have c1: "mermaidStep ?c = Continue ?r" by simp
  from t h3 h4 h2 h5
  have c2: "mermaidStep (?pre @ openPlain @ ?body @ endTag @ ?post) = Continue ?r" by simp
  from t c1 have "processMermaidBlocks ?c = processMermaidBlocks ?r" by blast
  moreover from t' h8 have "processMermaidBlocks ?r = Some ?r" by blast
  ultimately have h6: "processMermaidBlocks ?c = Some ?r" by simp
  from t h6 have c3: "mermaidStep ?r = Break" by blast
  from t h6 h7 have c4: "\<forall>p b q. ?r \<noteq> p @ openPlain @ b @ endTag @ q" by blast
  from h1 h2 c1 h3 h4 c2 h6 c3 h7 c4 show ?thesis by blast
qed

text \<open>
  The claim as stated fails where a \<open>language-mermaid\<close> opening marker is never closed:
  the loop selects that marker first, finds no closing tag and stops, and the complete
  \<open>mermaid\<close> block before it stays as it is.
\<close>

theorem mermaid_block_counterexample:
  \<open>processMermaidBlocks
      (''<pre><code class="mermaid">A</code></pre>'' @ ''<pre><code class="language-mermaid">B'')
    = Some (''<pre><code class="mermaid">A</code></pre>'' @ ''<pre><code class="language-mermaid">B'')\<close>
  by code_simp

section \<open>Paths: Go's \<open>path/filepath\<close> on a Unix host\<close>

text \<open>
  The program calls \<open>filepath.Clean\<close>, \<open>filepath.Join\<close> and \<open>filepath.Dir\<close>. They
  belong to Go's standard library; the definitions below follow its documentation for
  a host whose separator is \<open>/\<close> (no volume names). \<open>Clean\<close> works on the elements of
  the path (the pieces between separators): an empty element and \<open>.\<close> are dropped; \<open>..\<close>
  removes the element before it, is dropped at the root of a rooted path, and is kept
  at the front of a path that is not rooted; the empty result is \<open>.\<close>.
\<close>

fun splitOn :: "char \<Rightarrow> string \<Rightarrow> string list" where
  "splitOn sep [] = [[]]"
| "splitOn sep (c # cs) =
     (if c = sep then [] # splitOn sep cs
      else (let r = splitOn sep cs in (c # hd r) # tl r))"

fun joinWith :: "string \<Rightarrow> string list \<Rightarrow> string" where
  "joinWith sep [] = []"
| "joinWith sep [x] = x"
| "joinWith sep (x # y # ys) = x @ sep @ joinWith sep (y # ys)"

definition cleanElem :: "bool \<Rightarrow> string list \<Rightarrow> string \<Rightarrow> string list" where
  "cleanElem rooted out e =
     (if e = [] \<or> e = ''.'' then out
      else if e = ''..'' then
        (if out \<noteq> [] \<and> last out \<noteq> ''..'' then butlast out
         else if rooted then out
         else out @ [''..''])
      else out @ [e])"

definition Clean :: "string \<Rightarrow> string" where
  "Clean path =
     (if path = [] then ''.''
      else
        (let rooted = (hd path = CHR ''/'');
             out = foldl (cleanElem rooted) [] (splitOn (CHR ''/'') path);
             s = (if rooted then ''/'' else []) @ joinWith ''/'' out
         in if s = [] then ''.'' else s))"

text \<open>
  \<open>filepath.Join(a, b)\<close>: the elements are joined with the separator, starting at the
  first non-empty one, and the result is cleaned; with no non-empty element the result
  is the empty string.
\<close>

definition Join :: "string \<Rightarrow> string \<Rightarrow> string" where
  "Join a b =
     (if a \<noteq> [] then Clean (a @ ''/'' @ b)
      else if b \<noteq> [] then Clean b
      else [])"

text \<open>
  \<open>filepath.Dir(path)\<close>: everything up to and including the last separator, cleaned.
\<close>

definition Dir :: "string \<Rightarrow> string" where
  "Dir path = Clean (rev (dropWhile (\<lambda>c. c \<noteq> CHR ''/'') (rev path)))"

section \<open>Image references: \<open>fixImagePaths\<close>\<close>

definition imgOpen :: string where
  \<open>imgOpen = ''<img src="''\<close>

definition quote :: string where
  "quote = [CHR 0x22]"

definition marker :: string where
  \<open>marker = ''onclick="openImageModal''\<close>

definition affordance :: string where
  \<open>affordance = '' class="preview-image" onclick="openImageModal(this.src)"''\<close>

definition maxIterations :: nat where
  "maxIterations = 1000"

text \<open>The test on the prefixes of \<open>imgPath\<close> that selects the references to rewrite.\<close>

definition isRelative :: "string \<Rightarrow> bool" where
  "isRelative imgPath =
     (\<not> hasPrefix imgPath ''/'' \<and> \<not> hasPrefix imgPath ''http://''
      \<and> \<not> hasPrefix imgPath ''https://'' \<and> \<not> hasPrefix imgPath ''data:'')"

text \<open>
  The path written for such a reference: joined with the directory of the markdown file,
  cleaned, backslashes turned into slashes, a leading slash removed.
\<close>

definition fullPath :: "string \<Rightarrow> string \<Rightarrow> string" where
  "fullPath mdDir imgPath =
     (let p0 = (if hasPrefix imgPath ''../'' \<or> hasPrefix imgPath ''./'' then Join mdDir imgPath
                else if mdDir \<noteq> [] then Join mdDir imgPath
                else imgPath);
          p1 = Clean p0;
          p2 = replaceAll p1 [CHR 0x5C] ''/''
      in if hasPrefix p2 ''/'' then drop 1 p2 else p2)"

definition rewriteTag :: "string \<Rightarrow> string \<Rightarrow> string \<Rightarrow> string" where
  "rewriteTag mdDir imgPath originalImgTag =
     (if isRelative imgPath then
        replaceFirst originalImgTag
          (''src='' @ quote @ imgPath @ quote)
          (''src='' @ quote @ fullPath mdDir imgPath @ quote @ affordance)
      else
        take (length originalImgTag - 1) originalImgTag @ affordance @ ''>'')"

text \<open>
  One pass through the body of the \<open>for\<close> loop of \<open>fixImagePaths\<close>, as what it appends
  to \<open>result\<close> and what it leaves in \<open>content\<close>: \<open>Stop w\<close> is one of the three \<open>break\<close>s
  after writing \<open>w\<close>; \<open>Skip w rest\<close> is the \<open>continue\<close> of an image tag that already
  carries the marker (\<open>processed\<close> is not incremented); \<open>Next w rest\<close> is the end of
  the body (\<open>processed++\<close>). The slices of the source are in range by construction (their
  bounds come from \<open>strings.Index\<close>), so \<open>take\<close> and \<open>drop\<close> stand for them.
\<close>

datatype img_step = Stop string | Skip string string | Next string string

definition imgStep :: "string \<Rightarrow> string \<Rightarrow> img_step" where
  "imgStep mdDir content =
     (case strIndex content imgOpen of
        None \<Rightarrow> Stop content
      | Some start \<Rightarrow>
         (let after = drop (start + length imgOpen) content
          in case strIndex after quote of
               None \<Rightarrow> Stop (take start content @ drop start content)
             | Some end \<Rightarrow>
                (let imgPath = take end after
                 in case strIndex (drop end after) ''>'' of
                      None \<Rightarrow> Stop (take start content @ drop start content)
                    | Some tagEnd \<Rightarrow>
                       (let originalImgTag =
                              take (length imgOpen + end + tagEnd + 1) (drop start content);
                            rest = drop (start + length imgOpen + end + tagEnd + 1) content
                        in if strContains originalImgTag marker
                           then Skip (take start content @ originalImgTag) rest
                           else Next (take start content
                                      @ rewriteTag mdDir imgPath originalImgTag) rest))))"

lemma imgStep_shorter:
  assumes "imgStep mdDir content = Skip w rest \<or> imgStep mdDir content = Next w rest"
  shows "length rest < length content"
proof -
  from assms have "\<exists>start k. strIndex content imgOpen = Some start \<and> 0 < k \<and> rest = drop k content"
    by (auto simp: imgStep_def Let_def split: option.splits if_splits)
  then obtain start k where
    s: "strIndex content imgOpen = Some start" and k: "0 < k" and r: "rest = drop k content"
    by blast
  from strIndex_Some_prefix[OF s] have "length imgOpen \<le> length (drop start content)"
    using prefix_length_le by blast
  then have "content \<noteq> []" by (auto simp: imgOpen_def)
  with r k show ?thesis by simp
qed

text \<open>
  The loop \<open>for processed < maxIterations\<close>, with the builder \<open>result\<close> and the counter
  as state; it returns both as they are when the loop is left.
\<close>

function imgLoop :: "string \<Rightarrow> string \<Rightarrow> nat \<Rightarrow> string \<Rightarrow> string \<times> nat" where
  "imgLoop mdDir content processed result =
     (if processed < maxIterations then
        (case imgStep mdDir content of
           Stop w \<Rightarrow> (result @ w, processed)
         | Skip w rest \<Rightarrow> imgLoop mdDir rest processed (result @ w)
         | Next w rest \<Rightarrow> imgLoop mdDir rest (Suc processed) (result @ w))
      else (result, processed))"
  by pat_completeness auto
termination
  by (relation "measure (\<lambda>(mdDir, content, processed, result). length content)")
     (auto intro: imgStep_shorter)

declare imgLoop.simps [simp del]

text \<open>
  The directory of the markdown file, relative to the root; the root itself is the
  empty string.
\<close>

definition mdDirOf :: "string \<Rightarrow> string" where
  "mdDirOf mdFilePath = (if Dir mdFilePath = ''.'' then [] else Dir mdFilePath)"

definition fixImagePaths :: "string \<Rightarrow> string \<Rightarrow> string" where
  "fixImagePaths htmlContent mdFilePath =
     (let mdDir = mdDirOf mdFilePath;
          (result, processed) = imgLoop mdDir htmlContent 0 []
      in if processed \<ge> maxIterations then htmlContent else result)"

subsection \<open>One pass of the loop on a well-formed tag\<close>

lemma length_imgOpen [simp]: "length imgOpen = 10" by (simp add: imgOpen_def)

text \<open>An image tag as the loop body reads it.\<close>

definition imgTag :: "string \<Rightarrow> string \<Rightarrow> string" where
  "imgTag imgPath mid = imgOpen @ imgPath @ quote @ mid @ ''>''"

lemma imgStep_tagI:
  assumes f: "strIndex (pre @ imgOpen @ y) imgOpen = Some (length pre)"
    and q: "CHR 0x22 \<notin> set imgPath"
    and g: "CHR ''>'' \<notin> set mid"
  shows "imgStep d (pre @ imgTag imgPath mid @ X) =
           (if strContains (imgTag imgPath mid) marker
            then Skip (pre @ imgTag imgPath mid) X
            else Next (pre @ rewriteTag d imgPath (imgTag imgPath mid)) X)"
proof -
  let ?c = "pre @ imgTag imgPath mid @ X"
  have s: "strIndex ?c imgOpen = Some (length pre)"
    using strIndex_prefix_local[OF f, of "imgPath @ quote @ mid @ ''>'' @ X"]
    by (simp add: imgTag_def)
  have a: "drop (length pre + length imgOpen) ?c = imgPath @ CHR 0x22 # (mid @ ''>'' @ X)"
    by (simp add: imgTag_def quote_def)
  have e: "strIndex (drop (length pre + length imgOpen) ?c) quote = Some (length imgPath)"
    unfolding a quote_def using strIndex_charI[OF q] by simp
  have b: "drop (length imgPath) (drop (length pre + length imgOpen) ?c)
           = (CHR 0x22 # mid) @ CHR ''>'' # X"
    unfolding a by simp
  have "CHR ''>'' \<notin> set (CHR 0x22 # mid)" using g by simp
  then have t: "strIndex (drop (length imgPath) (drop (length pre + length imgOpen) ?c)) ''>''
           = Some (Suc (length mid))"
    unfolding b using strIndex_charI[of "CHR ''>''" "CHR 0x22 # mid" X] by simp
  have tg: "take (length imgOpen + length imgPath + Suc (length mid) + 1) (drop (length pre) ?c)
            = imgTag imgPath mid"
    by (simp add: imgTag_def quote_def)
  have rs: "drop (length pre + length imgOpen + length imgPath + Suc (length mid) + 1) ?c = X"
    by (simp add: imgTag_def quote_def)
  have ip: "take (length imgPath) (drop (length pre + length imgOpen) ?c) = imgPath"
    unfolding a by simp
  show ?thesis
    unfolding imgStep_def Let_def s option.case e t tg rs ip
    by simp
qed

lemma imgStep_tagD:
  assumes "imgStep d c = Skip w rest \<or> imgStep d c = Next w rest"
  shows "\<exists>pre imgPath mid.
           c = pre @ imgTag imgPath mid @ rest \<and>
           strIndex (pre @ imgOpen @ drop (length pre + length imgOpen) c) imgOpen = Some (length pre) \<and>
           CHR 0x22 \<notin> set imgPath \<and> CHR ''>'' \<notin> set mid"
proof -
  from assms obtain start e t where
    s: "strIndex c imgOpen = Some start" and
    e: "strIndex (drop (start + length imgOpen) c) quote = Some e" and
    t: "strIndex (drop e (drop (start + length imgOpen) c)) ''>'' = Some t" and
    r: "rest = drop (start + length imgOpen + e + t + 1) c"
    by (auto simp: imgStep_def Let_def split: option.splits if_splits)
  define pre where "pre = take start c"
  define after where "after = drop (start + length imgOpen) c"
  define imgPath where "imgPath = take e after"
  define Z where "Z = drop e after"
  have lp: "length pre = start" using strIndex_Some_prefix[OF s] by (simp add: pre_def)
  have c1: "c = pre @ imgOpen @ after"
    using strIndex_split[OF s] by (simp add: pre_def after_def)
  have q: "CHR 0x22 \<notin> set imgPath"
    using strIndex_char_notin[of after "CHR 0x22" e] e by (simp add: after_def imgPath_def quote_def)
  have a1: "after = imgPath @ Z" by (simp add: imgPath_def Z_def)
  have "after = take e after @ CHR 0x22 # drop (Suc e) after"
    using strIndex_char_split[of after "CHR 0x22" e] e by (simp add: after_def quote_def)
  then have z1: "Z = CHR 0x22 # drop (Suc e) after"
    unfolding Z_def by (metis append_eq_conv_conj e after_def length_take min.absorb2 strIndex_Some_prefix)
  have tZ: "strIndex Z ''>'' = Some t" using t by (simp add: Z_def after_def)
  have g0: "CHR ''>'' \<notin> set (take t Z)" using strIndex_char_notin[OF tZ] .
  have z2: "Z = take t Z @ CHR ''>'' # drop (Suc t) Z" using strIndex_char_split[OF tZ] .
  have "t \<noteq> 0"
  proof
    assume "t = 0"
    with z2 have "Z = CHR ''>'' # drop 1 Z" by simp
    with z1 have "CHR 0x22 # drop (Suc e) after = CHR ''>'' # drop 1 Z" by simp
    then show False by simp
  qed
  then obtain t' where t': "t = Suc t'" by (cases t) auto
  define mid where "mid = take t' (drop (Suc e) after)"
  have "take (Suc t') (CHR 0x22 # drop (Suc e) after) = CHR 0x22 # mid"
    by (simp add: mid_def)
  then have tk: "take t Z = CHR 0x22 # mid"
    using z1 t' by simp
  have g: "CHR ''>'' \<notin> set mid" using g0 tk by simp
  have "drop (Suc t) Z = drop (Suc t + (e + (start + length imgOpen))) c"
    unfolding Z_def after_def by (simp only: drop_drop)
  also have "Suc t + (e + (start + length imgOpen)) = start + length imgOpen + e + t + 1"
    by simp
  finally have rZ: "rest = drop (Suc t) Z"
    using r by simp
  have "Z = (CHR 0x22 # mid) @ CHR ''>'' # rest" using z2 tk rZ by simp
  then have "c = pre @ imgOpen @ imgPath @ quote @ mid @ ''>'' @ rest"
    using c1 a1 by (simp add: quote_def)
  then have c2: "c = pre @ imgTag imgPath mid @ rest" by (simp add: imgTag_def)
  have "drop (length pre + length imgOpen) c = after" by (simp only: lp after_def)
  then have "pre @ imgOpen @ drop (length pre + length imgOpen) c = c"
    using c1 by (simp only:)
  then have f: "strIndex (pre @ imgOpen @ drop (length pre + length imgOpen) c) imgOpen = Some (length pre)"
    using s lp by (simp only:)
  from c2 f q g show ?thesis by blast
qed

text \<open>What a pass of the loop writes and leaves, for a tag that is well formed.\<close>

lemma imgStep_tag_cases:
  assumes "imgStep d c = Skip w rest \<or> imgStep d c = Next w rest"
  obtains pre imgPath mid where
    "c = pre @ imgTag imgPath mid @ rest"
    "\<And>X. strIndex (pre @ imgOpen @ X) imgOpen = Some (length pre)"
    "CHR 0x22 \<notin> set imgPath" "CHR ''>'' \<notin> set mid"
    "imgStep d c = Skip w rest \<longleftrightarrow> strContains (imgTag imgPath mid) marker"
    "strContains (imgTag imgPath mid) marker \<Longrightarrow> w = pre @ imgTag imgPath mid"
    "\<not> strContains (imgTag imgPath mid) marker \<Longrightarrow> w = pre @ rewriteTag d imgPath (imgTag imgPath mid)"
proof -
  from imgStep_tagD[OF assms] obtain pre imgPath mid where
    c: "c = pre @ imgTag imgPath mid @ rest" and
    f: "strIndex (pre @ imgOpen @ drop (length pre + length imgOpen) c) imgOpen = Some (length pre)" and
    q: "CHR 0x22 \<notin> set imgPath" and g: "CHR ''>'' \<notin> set mid"
    by blast
  have fX: "\<And>X. strIndex (pre @ imgOpen @ X) imgOpen = Some (length pre)"
    using strIndex_prefix_local[OF f] .
  have st: "imgStep d c = (if strContains (imgTag imgPath mid) marker
            then Skip (pre @ imgTag imgPath mid) rest
            else Next (pre @ rewriteTag d imgPath (imgTag imgPath mid)) rest)"
    using imgStep_tagI[OF f q g, of d rest] c by simp
  show thesis
  proof (rule that[OF c fX q g])
    show "imgStep d c = Skip w rest \<longleftrightarrow> strContains (imgTag imgPath mid) marker"
      using st assms by (auto split: if_splits)
    show "strContains (imgTag imgPath mid) marker \<Longrightarrow> w = pre @ imgTag imgPath mid"
      using st assms by (auto split: if_splits)
    show "\<not> strContains (imgTag imgPath mid) marker \<Longrightarrow> w = pre @ rewriteTag d imgPath (imgTag imgPath mid)"
      using st assms by (auto split: if_splits)
  qed
qed

lemma imgStep_StopD: "imgStep d c = Stop w \<Longrightarrow> w = c"
  by (auto simp: imgStep_def Let_def split: option.splits if_splits)

lemma imgStep_Stop_any: "imgStep d c = Stop w \<Longrightarrow> imgStep d' c = Stop c"
  by (auto simp: imgStep_def Let_def split: option.splits if_splits)

subsection \<open>Facts about the loop\<close>

text \<open>
  What the loop has appended to \<open>result\<close> and the value of \<open>processed\<close> when it is left,
  for a run that starts with an empty builder.
\<close>

definition imgWritten :: "string \<Rightarrow> string \<Rightarrow> nat \<Rightarrow> string" where
  "imgWritten mdDir content processed = fst (imgLoop mdDir content processed [])"

definition imgCount :: "string \<Rightarrow> string \<Rightarrow> nat \<Rightarrow> nat" where
  "imgCount mdDir content processed = snd (imgLoop mdDir content processed [])"



lemma imgLoop_induct_noacc [case_names step]:
  assumes "\<And>d c p.
     (\<And>w rest. p < maxIterations \<Longrightarrow> imgStep d c = Skip w rest \<Longrightarrow> P d rest p) \<Longrightarrow>
     (\<And>w rest. p < maxIterations \<Longrightarrow> imgStep d c = Next w rest \<Longrightarrow> P d rest (Suc p)) \<Longrightarrow>
     P d c p"
  shows "P d c p"
proof -
  have "P d c p" if "r = r" for r :: string
    using that
  proof (induction d c p r rule: imgLoop.induct)
    case (1 mdDir content processed result)
    show ?case
      by (rule assms) (use 1 in auto)
  qed
  then show ?thesis by simp
qed

lemma imgLoop_acc:
  "imgLoop d c p (a @ b) = (a @ fst (imgLoop d c p b), snd (imgLoop d c p b))"
proof (induction d c p b arbitrary: a rule: imgLoop.induct)
  case (1 d c p b)
  show ?case
  proof (cases "p < maxIterations")
    case False
    then show ?thesis by (simp add: imgLoop.simps)
  next
    case True
    show ?thesis
    proof (cases "imgStep d c")
      case (Stop w)
      with True show ?thesis by (simp add: imgLoop.simps)
    next
      case (Skip w rest)
      have "imgLoop d c p (a @ b) = imgLoop d rest p (a @ (b @ w))"
        using True Skip by (simp add: imgLoop.simps[of d c p "a @ b"])
      also have "\<dots> = (a @ fst (imgLoop d rest p (b @ w)), snd (imgLoop d rest p (b @ w)))"
        using 1(1)[OF True Skip] .
      also have "imgLoop d rest p (b @ w) = imgLoop d c p b"
        using True Skip by (simp add: imgLoop.simps[of d c p b])
      finally show ?thesis .
    next
      case (Next w rest)
      have "imgLoop d c p (a @ b) = imgLoop d rest (Suc p) (a @ (b @ w))"
        using True Next by (simp add: imgLoop.simps[of d c p "a @ b"])
      also have "\<dots> = (a @ fst (imgLoop d rest (Suc p) (b @ w)), snd (imgLoop d rest (Suc p) (b @ w)))"
        using 1(2)[OF True Next] .
      also have "imgLoop d rest (Suc p) (b @ w) = imgLoop d c p b"
        using True Next by (simp add: imgLoop.simps[of d c p b])
      finally show ?thesis .
    qed
  qed
qed

lemma imgLoop_eq: "imgLoop d c p acc = (acc @ imgWritten d c p, imgCount d c p)"
  using imgLoop_acc[of d c p acc "[]"] by (simp add: imgWritten_def imgCount_def)

lemma imgLoop_ceiling:
  "\<not> p < maxIterations \<Longrightarrow> imgWritten d c p = [] \<and> imgCount d c p = p"
  by (simp add: imgWritten_def imgCount_def imgLoop.simps)

lemma imgLoop_Stop:
  "p < maxIterations \<Longrightarrow> imgStep d c = Stop w \<Longrightarrow> imgWritten d c p = c \<and> imgCount d c p = p"
  using imgStep_StopD[of d c w] by (simp add: imgWritten_def imgCount_def imgLoop.simps)

lemma imgLoop_Skip:
  "p < maxIterations \<Longrightarrow> imgStep d c = Skip w rest \<Longrightarrow>
   imgWritten d c p = w @ imgWritten d rest p \<and> imgCount d c p = imgCount d rest p"
  using imgLoop_eq[of d rest p w]
  by (simp add: imgWritten_def imgCount_def imgLoop.simps[of d c p])

lemma imgLoop_Next:
  "p < maxIterations \<Longrightarrow> imgStep d c = Next w rest \<Longrightarrow>
   imgWritten d c p = w @ imgWritten d rest (Suc p) \<and> imgCount d c p = imgCount d rest (Suc p)"
  using imgLoop_eq[of d rest "Suc p" w]
  by (simp add: imgWritten_def imgCount_def imgLoop.simps[of d c p])






lemma fixImagePaths_eq:
  "fixImagePaths html path =
     (if imgCount (mdDirOf path) html 0 \<ge> maxIterations then html
      else imgWritten (mdDirOf path) html 0)"
  by (simp add: fixImagePaths_def imgWritten_def imgCount_def Let_def split: prod.splits)

lemma marker_in_affordance: "strContains (a @ affordance @ b) marker"
proof -
  have "affordance = '' class=\"preview-image\" '' @ marker @ ''(this.src)\"''"
    by (simp add: affordance_def marker_def)
  then have "a @ affordance @ b = (a @ '' class=\"preview-image\" '') @ marker @ (''(this.src)\"'' @ b)"
    by simp
  then show ?thesis using strContains_append by metis
qed

lemma gt_notin_affordance: "CHR ''>'' \<notin> set affordance"
  by (simp add: affordance_def)







subsection \<open>Malformed tags and the ceiling\<close>







subsection \<open>The characters of a cleaned path\<close>

lemma splitOn_nonempty: "splitOn sep s \<noteq> []"
  by (induction s) (auto simp: Let_def)

lemma splitOn_chars: "(\<Union>e \<in> set (splitOn sep s). set e) \<subseteq> set s"
proof (induction s)
  case Nil
  then show ?case by simp
next
  case (Cons c cs)
  obtain x xs where r: "splitOn sep cs = x # xs"
    using splitOn_nonempty[of sep cs] by (cases "splitOn sep cs") auto
  with Cons show ?case by (auto simp: Let_def)
qed

lemma cleanElem_chars:
  "(\<Union>e \<in> set (cleanElem rooted out e0). set e) \<subseteq> (\<Union>e \<in> set out. set e) \<union> set e0 \<union> {CHR ''.''}"
proof
  fix x assume "x \<in> (\<Union>e \<in> set (cleanElem rooted out e0). set e)"
  then obtain e where e: "e \<in> set (cleanElem rooted out e0)" and x: "x \<in> set e" by blast
  from e have "e \<in> set out \<or> e = e0 \<or> e = ''..''"
    by (auto simp: cleanElem_def split: if_splits dest: in_set_butlastD)
  with x show "x \<in> (\<Union>e \<in> set out. set e) \<union> set e0 \<union> {CHR ''.''}" by auto
qed

lemma foldl_cleanElem_chars:
  "(\<Union>e \<in> set (foldl (cleanElem rooted) out es). set e)
     \<subseteq> (\<Union>e \<in> set out. set e) \<union> (\<Union>e \<in> set es. set e) \<union> {CHR ''.''}"
proof (induction es arbitrary: out)
  case Nil
  then show ?case by auto
next
  case (Cons e0 es)
  have 1: "(\<Union>e \<in> set (foldl (cleanElem rooted) (cleanElem rooted out e0) es). set e)
     \<subseteq> (\<Union>e \<in> set (cleanElem rooted out e0). set e) \<union> (\<Union>e \<in> set es. set e) \<union> {CHR ''.''}"
    by (rule Cons.IH)
  have 2: "(\<Union>e \<in> set (cleanElem rooted out e0). set e)
     \<subseteq> (\<Union>e \<in> set out. set e) \<union> set e0 \<union> {CHR ''.''}"
    by (rule cleanElem_chars)
  have 3: "(\<Union>e \<in> set (e0 # es). set e) = set e0 \<union> (\<Union>e \<in> set es. set e)" by simp
  show ?case using 1 2 unfolding foldl_Cons 3 by blast
qed

lemma joinWith_chars: "set (joinWith sep xs) \<subseteq> (\<Union>e \<in> set xs. set e) \<union> set sep"
  by (induction sep xs rule: joinWith.induct) auto

lemma Clean_chars: "set (Clean p) \<subseteq> set p \<union> {CHR ''.'', CHR ''/''}"
proof -
  have "set (joinWith ''/'' (foldl (cleanElem r) [] (splitOn (CHR ''/'') p)))
        \<subseteq> set p \<union> {CHR ''.'', CHR ''/''}" for r
    using joinWith_chars[of "''/''" "foldl (cleanElem r) [] (splitOn (CHR ''/'') p)"]
      foldl_cleanElem_chars[of r "[]" "splitOn (CHR ''/'') p"]
      splitOn_chars[of "CHR ''/''" p]
    by auto
  then show ?thesis
    by (auto simp: Clean_def Let_def)
qed

lemma Join_chars: "set (Join a b) \<subseteq> set a \<union> set b \<union> {CHR ''.'', CHR ''/''}"
  using Clean_chars[of "a @ ''/'' @ b"] Clean_chars[of b]
  by (auto simp: Join_def)

lemma Dir_chars: "set (Dir p) \<subseteq> set p \<union> {CHR ''.'', CHR ''/''}"
proof -
  have "set (rev (dropWhile (\<lambda>c. c \<noteq> CHR ''/'') (rev p))) \<subseteq> set p"
    using set_dropWhileD[of _ "\<lambda>c. c \<noteq> CHR ''/''" "rev p"] by auto
  then show ?thesis
    using Clean_chars[of "rev (dropWhile (\<lambda>c. c \<noteq> CHR ''/'') (rev p))"]
    by (auto simp: Dir_def)
qed

lemma replaceAll_chars: "set (replaceAll s old new) \<subseteq> set s \<union> set new"
proof (induction s old new rule: replaceAll.induct)
  case (1 s old new)
  show ?case
  proof (cases "old = [] \<or> s = []")
    case True
    then show ?thesis by (subst replaceAll.simps) auto
  next
    case False
    show ?thesis
    proof (cases "prefix old s")
      case True
      have "set (drop (length old) s) \<subseteq> set s" by (rule set_drop_subset)
      with 1(1)[OF False True] False True show ?thesis
        by (subst replaceAll.simps) auto
    next
      case nf: False
      from False obtain c cs where s: "s = c # cs" by (cases s) auto
      with 1(2)[OF False nf] False nf show ?thesis
        by (subst replaceAll.simps) auto
    qed
  qed
qed

lemma fullPath_chars:
  "set (fullPath d i) \<subseteq> set d \<union> set i \<union> {CHR ''.'', CHR ''/''}"
proof -
  define p0 where "p0 = (if hasPrefix i ''../'' \<or> hasPrefix i ''./'' then Join d i
                else if d \<noteq> [] then Join d i else i)"
  have 0: "set p0 \<subseteq> set d \<union> set i \<union> {CHR ''.'', CHR ''/''}"
    using Join_chars[of d i] by (auto simp: p0_def)
  have 1: "set (Clean p0) \<subseteq> set d \<union> set i \<union> {CHR ''.'', CHR ''/''}"
    using Clean_chars[of p0] 0 by auto
  have 2: "set (replaceAll (Clean p0) [CHR 0x5C] ''/'') \<subseteq> set d \<union> set i \<union> {CHR ''.'', CHR ''/''}"
    using replaceAll_chars[of "Clean p0" "[CHR 0x5C]" "''/''"] 1 by auto
  have 3: "set (drop 1 (replaceAll (Clean p0) [CHR 0x5C] ''/'')) \<subseteq> set d \<union> set i \<union> {CHR ''.'', CHR ''/''}"
    using set_drop_subset[of 1 "replaceAll (Clean p0) [CHR 0x5C] ''/''"] 2 by blast
  show ?thesis
    using 2 3 unfolding fullPath_def p0_def[symmetric] Let_def by (simp split: if_splits)
qed

lemma fullPath_no_quote:
  "CHR 0x22 \<notin> set d \<Longrightarrow> CHR 0x22 \<notin> set i \<Longrightarrow> CHR 0x22 \<notin> set (fullPath d i)"
  using fullPath_chars[of d i] by auto

lemma mdDirOf_no_quote:
  "CHR 0x22 \<notin> set (Dir path) \<Longrightarrow> CHR 0x22 \<notin> set (mdDirOf path)"
  by (simp add: mdDirOf_def)

lemma Dir_no_quote:
  "CHR 0x22 \<notin> set path \<Longrightarrow> CHR 0x22 \<notin> set (Dir path)"
  using Dir_chars[of path] by auto

subsection \<open>The rewritten tag\<close>

lemma rewriteTag_absolute:
  "\<not> isRelative imgPath \<Longrightarrow>
   rewriteTag d imgPath (imgTag imgPath mid) = imgTag imgPath (mid @ affordance)"
  by (simp add: rewriteTag_def imgTag_def)

lemma replaceFirst_at:
  "strIndex (a @ old @ r) old = Some (length a) \<Longrightarrow> replaceFirst (a @ old @ r) old new = a @ new @ r"
  by (simp add: replaceFirst_def)

lemma src_at_5:
  "strIndex (''<img '' @ (''src='' @ quote @ imgPath @ quote) @ r) (''src='' @ quote @ imgPath @ quote)
   = Some (length ''<img '')"
  by (simp add: quote_def)

lemma rewriteTag_relative:
  assumes "isRelative imgPath"
  shows "rewriteTag d imgPath (imgTag imgPath mid) = imgTag (fullPath d imgPath) (affordance @ mid)"
proof -
  have t: "imgTag imgPath mid = ''<img '' @ (''src='' @ quote @ imgPath @ quote) @ (mid @ ''>'')"
    by (simp add: imgTag_def imgOpen_def quote_def)
  have "rewriteTag d imgPath (imgTag imgPath mid)
        = ''<img '' @ (''src='' @ quote @ fullPath d imgPath @ quote @ affordance) @ (mid @ ''>'')"
    using assms unfolding rewriteTag_def t
    by (simp only: if_True replaceFirst_at[OF src_at_5])
  also have "\<dots> = imgTag (fullPath d imgPath) (affordance @ mid)"
    by (simp add: imgTag_def imgOpen_def quote_def)
  finally show ?thesis .
qed

subsection \<open>A second run over the output\<close>

lemma imgStep_again:
  assumes st: "imgStep d c = Skip w rest \<or> imgStep d c = Next w rest"
    and d: "CHR 0x22 \<notin> set d"
  shows "imgStep d (w @ X) = Skip w X"
  using st
proof (rule imgStep_tag_cases)
  fix pre imgPath mid
  assume f: "\<And>X. strIndex (pre @ imgOpen @ X) imgOpen = Some (length pre)"
    and q: "CHR 0x22 \<notin> set imgPath" and g: "CHR ''>'' \<notin> set mid"
    and w1: "strContains (imgTag imgPath mid) marker \<Longrightarrow> w = pre @ imgTag imgPath mid"
    and w2: "\<not> strContains (imgTag imgPath mid) marker \<Longrightarrow>
             w = pre @ rewriteTag d imgPath (imgTag imgPath mid)"
  have tagI: "imgStep d (pre @ imgTag ip m @ X) = Skip (pre @ imgTag ip m) X"
    if "CHR 0x22 \<notin> set ip" "CHR ''>'' \<notin> set m" "strContains (imgTag ip m) marker" for ip m
    using imgStep_tagI[OF f that(1) that(2), of d X] that(3) by simp
  show ?thesis
  proof (cases "strContains (imgTag imgPath mid) marker")
    case True
    then show ?thesis using tagI[OF q g True] w1 by simp
  next
    case False
    show ?thesis
    proof (cases "isRelative imgPath")
      case True
      have w: "w = pre @ imgTag (fullPath d imgPath) (affordance @ mid)"
        using w2[OF False] rewriteTag_relative[OF True] by simp
      have m: "strContains (imgTag (fullPath d imgPath) (affordance @ mid)) marker"
        using marker_in_affordance[of "imgOpen @ fullPath d imgPath @ quote" "mid @ ''>''"]
        by (simp add: imgTag_def)
      have "CHR ''>'' \<notin> set (affordance @ mid)" using g gt_notin_affordance by simp
      from tagI[OF fullPath_no_quote[OF d q] this m] w show ?thesis by simp
    next
      case False
      have w: "w = pre @ imgTag imgPath (mid @ affordance)"
        using w2[OF \<open>\<not> strContains (imgTag imgPath mid) marker\<close>] rewriteTag_absolute[OF False] by simp
      have m: "strContains (imgTag imgPath (mid @ affordance)) marker"
        using marker_in_affordance[of "imgOpen @ imgPath @ quote @ mid" "''>''"]
        by (simp add: imgTag_def)
      have "CHR ''>'' \<notin> set (mid @ affordance)" using g gt_notin_affordance by simp
      from tagI[OF q this m] w show ?thesis by simp
    qed
  qed
qed

lemma imgStep_Skip_verbatim:
  assumes "imgStep d c = Skip w rest"
  shows "c = w @ rest"
proof -
  from assms have "imgStep d c = Skip w rest \<or> imgStep d c = Next w rest" by simp
  then show ?thesis
  proof (rule imgStep_tag_cases)
    fix pre imgPath mid
    assume c: "c = pre @ imgTag imgPath mid @ rest"
      and i: "imgStep d c = Skip w rest \<longleftrightarrow> strContains (imgTag imgPath mid) marker"
      and w1: "strContains (imgTag imgPath mid) marker \<Longrightarrow> w = pre @ imgTag imgPath mid"
    from assms i w1 c show ?thesis by simp
  qed
qed

lemma imgLoop_second_pass:
  assumes q: "q < maxIterations"
  shows "CHR 0x22 \<notin> set d \<Longrightarrow> imgCount d c p < maxIterations \<Longrightarrow>
         imgWritten d (imgWritten d c p) q = imgWritten d c p
         \<and> imgCount d (imgWritten d c p) q = q"
proof (induction d c p rule: imgLoop_induct_noacc)
  case (step d c p)
  show ?case
  proof (cases "p < maxIterations")
    case False
    then show ?thesis using imgLoop_ceiling[OF False, of d c] step.prems by simp
  next
    case True
    show ?thesis
    proof (cases "imgStep d c")
      case (Stop w)
      then show ?thesis
        using imgLoop_Stop[OF True Stop] imgLoop_Stop[OF q Stop] by simp
    next
      case (Skip w rest)
      define W where "W = imgWritten d rest p"
      have e: "imgWritten d c p = w @ W" "imgCount d c p = imgCount d rest p"
        using imgLoop_Skip[OF True Skip] by (simp_all add: W_def)
      have ih: "imgWritten d W q = W \<and> imgCount d W q = q"
        using step.IH(1)[OF True Skip] step.prems e unfolding W_def by simp
      have "imgStep d (w @ W) = Skip w W"
        using imgStep_again[of d c w rest W] Skip step.prems by simp
      from imgLoop_Skip[OF q this] ih e show ?thesis by simp
    next
      case (Next w rest)
      define W where "W = imgWritten d rest (Suc p)"
      have e: "imgWritten d c p = w @ W" "imgCount d c p = imgCount d rest (Suc p)"
        using imgLoop_Next[OF True Next] by (simp_all add: W_def)
      have ih: "imgWritten d W q = W \<and> imgCount d W q = q"
        using step.IH(2)[OF True Next] step.prems e unfolding W_def by simp
      have "imgStep d (w @ W) = Skip w W"
        using imgStep_again[of d c w rest W] Next step.prems by simp
      from imgLoop_Skip[OF q this] ih e show ?thesis by simp
    qed
  qed
qed

lemma fixImagePaths_idem:
  assumes "CHR 0x22 \<notin> set (Dir path)"
  shows "fixImagePaths (fixImagePaths html path) path = fixImagePaths html path"
proof (cases "maxIterations \<le> imgCount (mdDirOf path) html 0")
  case True
  then have "fixImagePaths html path = html" by (simp add: fixImagePaths_eq)
  then show ?thesis by simp
next
  case False
  define W where "W = imgWritten (mdDirOf path) html 0"
  have f: "fixImagePaths html path = W" using False by (simp add: fixImagePaths_eq W_def)
  have d: "CHR 0x22 \<notin> set (mdDirOf path)" using assms by (rule mdDirOf_no_quote)
  have z: "(0::nat) < maxIterations" by (simp add: maxIterations_def)
  have "imgWritten (mdDirOf path) W 0 = W \<and> imgCount (mdDirOf path) W 0 = 0"
    using imgLoop_second_pass[OF z d, of html 0] False unfolding W_def by simp
  then have "fixImagePaths W path = W" using z by (simp add: fixImagePaths_eq)
  with f show ?thesis by simp
qed

text \<open>
  C5 (as amended): for every HTML fragment and every source path whose directory holds
  no double quote, applying the image-path processor to its own output yields the
  output of the first application, byte for byte. An image element that already
  carries the marker is passed on unchanged, and an element the processor has written
  (passed on or rewritten) is passed on unchanged when it is read again.
\<close>

theorem fixImagePaths_idempotent:
  "(CHR 0x22 \<notin> set (Dir mdFilePath) \<longrightarrow>
      fixImagePaths (fixImagePaths htmlContent mdFilePath) mdFilePath
        = fixImagePaths htmlContent mdFilePath)
   \<and> (CHR 0x22 \<notin> set mdFilePath \<longrightarrow> CHR 0x22 \<notin> set (Dir mdFilePath))
   \<and> (imgStep mdDir content = Skip w rest \<longrightarrow> content = w @ rest)
   \<and> ((imgStep mdDir content = Skip w rest \<or> imgStep mdDir content = Next w rest)
        \<and> CHR 0x22 \<notin> set mdDir
      \<longrightarrow> imgStep mdDir (w @ X) = Skip w X)"
proof (intro conjI impI)
  assume "CHR 0x22 \<notin> set (Dir mdFilePath)"
  then show "fixImagePaths (fixImagePaths htmlContent mdFilePath) mdFilePath
             = fixImagePaths htmlContent mdFilePath"
    by (rule fixImagePaths_idem)
next
  assume "CHR 0x22 \<notin> set mdFilePath"
  then show "CHR 0x22 \<notin> set (Dir mdFilePath)" by (rule Dir_no_quote)
next
  assume "imgStep mdDir content = Skip w rest"
  then show "content = w @ rest" by (rule imgStep_Skip_verbatim)
next
  assume "(imgStep mdDir content = Skip w rest \<or> imgStep mdDir content = Next w rest)
        \<and> CHR 0x22 \<notin> set mdDir"
  then show "imgStep mdDir (w @ X) = Skip w X"
    using imgStep_again by blast
qed

theorem fixImagePaths_idempotent_witness:
  \<open>CHR 0x22 \<notin> set ''notes/sub/page.md''
   \<and> CHR 0x22 \<notin> set (Dir ''notes/sub/page.md'')
   \<and> fixImagePaths
        (fixImagePaths ''<p><img src="img/a.png" alt="a" /> <img src="/b.png" /></p>''
           ''notes/sub/page.md'')
        ''notes/sub/page.md''
       = fixImagePaths ''<p><img src="img/a.png" alt="a" /> <img src="/b.png" /></p>''
           ''notes/sub/page.md''
   \<and> fixImagePaths ''<p><img src="img/a.png" alt="a" /> <img src="/b.png" /></p>''
           ''notes/sub/page.md''
       = ''<p><img src="notes/sub/img/a.png" class="preview-image" onclick="openImageModal(this.src)" alt="a" /> <img src="/b.png" / class="preview-image" onclick="openImageModal(this.src)"></p>''
   \<and> imgStep ''notes/sub'' ''<p><img src="img/a.png" alt="a" /></p>''
       = Next ''<p><img src="notes/sub/img/a.png" class="preview-image" onclick="openImageModal(this.src)" alt="a" />'' ''</p>''
   \<and> CHR 0x22 \<notin> set ''notes/sub''
   \<and> imgStep ''notes/sub''
         (''<p><img src="notes/sub/img/a.png" class="preview-image" onclick="openImageModal(this.src)" alt="a" />'' @ ''</p>'')
       = Skip ''<p><img src="notes/sub/img/a.png" class="preview-image" onclick="openImageModal(this.src)" alt="a" />'' ''</p>''
   \<and> imgStep ''notes/sub'' ''<img src="b.png" onclick="openImageModal(this.src)"> text''
       = Skip ''<img src="b.png" onclick="openImageModal(this.src)">'' '' text''
   \<and> ''<img src="b.png" onclick="openImageModal(this.src)"> text''
       = ''<img src="b.png" onclick="openImageModal(this.src)">'' @ '' text''\<close>
proof -
  let ?p = "''notes/sub/page.md''"
  let ?h = \<open>''<p><img src="img/a.png" alt="a" /> <img src="/b.png" /></p>''\<close>
  let ?c = \<open>''<p><img src="img/a.png" alt="a" /></p>''\<close>
  let ?w = \<open>''<p><img src="notes/sub/img/a.png" class="preview-image" onclick="openImageModal(this.src)" alt="a" />''\<close>
  note t = fixImagePaths_idempotent[of ?p ?h "''notes/sub''" ?c ?w "''</p>''" "''</p>''"]
  have h1: "CHR 0x22 \<notin> set ?p" by simp
  from t h1 have h2: "CHR 0x22 \<notin> set (Dir ?p)" by blast
  from t h2 have c1: "fixImagePaths (fixImagePaths ?h ?p) ?p = fixImagePaths ?h ?p" by blast
  have v: \<open>fixImagePaths ?h ?p
       = ''<p><img src="notes/sub/img/a.png" class="preview-image" onclick="openImageModal(this.src)" alt="a" /> <img src="/b.png" / class="preview-image" onclick="openImageModal(this.src)"></p>''\<close>
    by code_simp
  have h3: "imgStep ''notes/sub'' ?c = Next ?w ''</p>''" by code_simp
  have h4: "CHR 0x22 \<notin> set ''notes/sub''" by simp
  from t h3 h4 have c2: "imgStep ''notes/sub'' (?w @ ''</p>'') = Skip ?w ''</p>''" by blast
  let ?k = \<open>''<img src="b.png" onclick="openImageModal(this.src)"> text''\<close>
  let ?kw = \<open>''<img src="b.png" onclick="openImageModal(this.src)">''\<close>
  note t' = fixImagePaths_idempotent[of ?p ?h "''notes/sub''" ?k ?kw "'' text''" "[]"]
  have h5: "imgStep ''notes/sub'' ?k = Skip ?kw '' text''" by code_simp
  from t' h5 have c3: "?k = ?kw @ '' text''" by blast
  from h1 h2 c1 v h3 h4 c2 h5 c3 show ?thesis by blast
qed

text \<open>
  The claim as stated fails for a source path whose directory holds a double quote
  (followed by \<open>>\<close>): the directory is copied into the \<open>src\<close> attribute as it is, the
  second run takes the quote for the end of the attribute and the \<open>>\<close> for the end of
  the tag, finds no marker in this shortened tag and rewrites it again.
\<close>

theorem fixImagePaths_idempotent_counterexample:
  \<open>fixImagePaths (fixImagePaths ''<img src="x.png">'' ''a">b/page.md'') ''a">b/page.md''
     \<noteq> fixImagePaths ''<img src="x.png">'' ''a">b/page.md''\<close>
  by code_simp

subsection \<open>The four references of the specification\<close>

text \<open>
  C3: inside \<open>notes/sub/page.md\<close> the relative reference \<open>img/a.png\<close> is rewritten to
  \<open>notes/sub/img/a.png\<close> and \<open>../img/a.png\<close> to \<open>notes/img/a.png\<close>; the absolute
  reference \<open>/assets/a.png\<close> and the remote reference \<open>https://x/a.png\<close> keep their
  path; in all four cases the element gains the class and the \<open>onclick\<close> handler of the
  lightbox. The tags are written as the renderer writes them (\<open>alt\<close> attribute, XHTML
  close).
\<close>

theorem fixImagePaths_examples:
  \<open>fixImagePaths ''<p><img src="img/a.png" alt="a" /></p>'' ''notes/sub/page.md''
     = ''<p><img src="notes/sub/img/a.png" class="preview-image" onclick="openImageModal(this.src)" alt="a" /></p>''
   \<and> fixImagePaths ''<p><img src="../img/a.png" alt="a" /></p>'' ''notes/sub/page.md''
     = ''<p><img src="notes/img/a.png" class="preview-image" onclick="openImageModal(this.src)" alt="a" /></p>''
   \<and> fixImagePaths ''<p><img src="/assets/a.png" alt="a" /></p>'' ''notes/sub/page.md''
     = ''<p><img src="/assets/a.png" alt="a" / class="preview-image" onclick="openImageModal(this.src)"></p>''
   \<and> fixImagePaths ''<p><img src="https://x/a.png" alt="a" /></p>'' ''notes/sub/page.md''
     = ''<p><img src="https://x/a.png" alt="a" / class="preview-image" onclick="openImageModal(this.src)"></p>''
   \<and> Dir ''notes/sub/page.md'' = ''notes/sub''
   \<and> fullPath ''notes/sub'' ''img/a.png'' = ''notes/sub/img/a.png''
   \<and> fullPath ''notes/sub'' ''../img/a.png'' = ''notes/img/a.png''
   \<and> \<not> isRelative ''/assets/a.png''
   \<and> \<not> isRelative ''https://x/a.png''\<close>
  by code_simp

section \<open>The tree scanner: \<open>scanDirectory\<close>\<close>

text \<open>
  The file system below the root, as \<open>os.ReadDir\<close> shows it: an entry is a file (anything
  that is not a directory) or a directory with its own listing; \<open>None\<close> is a directory
  that \<open>os.ReadDir\<close> fails to read.
\<close>

datatype fsnode = File string | Directory string "fsnode list option"

fun entryName :: "fsnode \<Rightarrow> string" where
  "entryName (File name) = name"
| "entryName (Directory name listing) = name"

fun entryIsDir :: "fsnode \<Rightarrow> bool" where
  "entryIsDir (File name) = False"
| "entryIsDir (Directory name listing) = True"

fun entryListing :: "fsnode \<Rightarrow> fsnode list option" where
  "entryListing (File name) = None"
| "entryListing (Directory name listing) = listing"

text \<open>The struct \<open>FileNode\<close>.\<close>

datatype FileNode = FileNode (Name: string) (Path: string) (IsDir: bool) (Children: "FileNode list")

text \<open>
  The comparison given to \<open>sort.Slice\<close>: directories first, then by name (\<open><\<close> on Go
  strings compares bytes).
\<close>

definition entryLess :: "fsnode \<Rightarrow> fsnode \<Rightarrow> bool" where
  "entryLess a b =
     (if entryIsDir a \<noteq> entryIsDir b then entryIsDir a
      else entryName a < entryName b)"

text \<open>
  \<open>sort.Slice\<close> leaves some permutation of the slice that is sorted by the comparison;
  the model sorts by insertion. The names of the entries of one directory are distinct,
  so no two entries are equivalent under the comparison and the sorted order is unique.
\<close>

fun insertBy :: "('a \<Rightarrow> 'a \<Rightarrow> bool) \<Rightarrow> 'a \<Rightarrow> 'a list \<Rightarrow> 'a list" where
  "insertBy lt x [] = [x]"
| "insertBy lt x (y # ys) = (if lt x y then x # y # ys else y # insertBy lt x ys)"

definition sortSlice :: "('a \<Rightarrow> 'a \<Rightarrow> bool) \<Rightarrow> 'a list \<Rightarrow> 'a list" where
  "sortSlice lt xs = foldr (insertBy lt) xs []"

text \<open>
  \<open>strings.HasSuffix(strings.ToLower(name), ".md")\<close>. Only the last three bytes matter,
  and no rune outside ASCII has \<open>.\<close>, \<open>m\<close> or \<open>d\<close> as its lower case, so the model lowers
  the ASCII letters.
\<close>

definition asciiLower :: "char \<Rightarrow> char" where
  "asciiLower c =
     (if CHR ''A'' \<le> c \<and> c \<le> CHR ''Z'' then char_of (of_char c + (32::nat)) else c)"

definition isMarkdown :: "string \<Rightarrow> bool" where
  "isMarkdown name = suffix ''.md'' (map asciiLower name)"

text \<open>The two \<open>continue\<close>s at the head of the loop body: hidden entries and reserved directories.\<close>

definition skipped :: "fsnode \<Rightarrow> bool" where
  "skipped entry =
     ((hasPrefix (entryName entry) ''.'' \<and> entryName entry \<noteq> ''.'')
      \<or> (entryIsDir entry \<and> (entryName entry = ''node_modules'' \<or> entryName entry = ''.git'')))"

definition entryPath :: "string \<Rightarrow> string \<Rightarrow> string" where
  "entryPath dir name = (if dir = ''.'' then name else Join dir name)"

definition addChild :: "FileNode \<Rightarrow> FileNode \<Rightarrow> FileNode" where
  "addChild parent node =
     FileNode (Name parent) (Path parent) (IsDir parent) (Children parent @ [node])"

lemma size_insertBy: "size_list f (insertBy lt x xs) = size_list f (x # xs)"
  by (induction xs) auto

lemma size_sortSlice: "size_list f (sortSlice lt xs) = size_list f xs"
  unfolding sortSlice_def by (induction xs) (auto simp: size_insertBy)

text \<open>
  \<open>scanDirectory dir listing parent mdFiles\<close>: \<open>listing\<close> is what \<open>os.ReadDir(dir)\<close>
  returns; the node \<open>parent\<close> and the global slice \<open>mdFiles\<close> are passed in and returned
  as the call leaves them. The first component is \<open>True\<close> when the call returns an error.
  \<open>scanEntries\<close> is the \<open>for\<close> loop over the sorted entries.
\<close>

function scanDirectory ::
    "string \<Rightarrow> fsnode list option \<Rightarrow> FileNode \<Rightarrow> string list \<Rightarrow> bool \<times> FileNode \<times> string list"
  and scanEntries ::
    "string \<Rightarrow> fsnode list \<Rightarrow> FileNode \<Rightarrow> string list \<Rightarrow> FileNode \<times> string list"
where
  "scanDirectory dir None parent mdFiles = (True, parent, mdFiles)"
| "scanDirectory dir (Some entries) parent mdFiles =
     (case scanEntries dir (sortSlice entryLess entries) parent mdFiles of
        (parent', mdFiles') \<Rightarrow> (False, parent', mdFiles'))"
| "scanEntries dir [] parent mdFiles = (parent, mdFiles)"
| "scanEntries dir (entry # rest) parent mdFiles =
     (let name = entryName entry in
      if skipped entry then scanEntries dir rest parent mdFiles
      else
        (let path = entryPath dir name;
             node = FileNode name path (entryIsDir entry) []
         in if entryIsDir entry then
              (case scanDirectory path (entryListing entry) node mdFiles of
                 (err, node', mdFiles') \<Rightarrow>
                   if err then scanEntries dir rest parent mdFiles'
                   else if Children node' \<noteq> []
                     then scanEntries dir rest (addChild parent node') mdFiles'
                     else scanEntries dir rest parent mdFiles')
            else if isMarkdown name then
              scanEntries dir rest (addChild parent node) (mdFiles @ [path])
            else scanEntries dir rest parent mdFiles))"
  by pat_completeness auto
termination
proof (relation "measure (\<lambda>x. case x of
          Inl (dir, listing, parent, mdFiles) \<Rightarrow> Suc (size_option (size_list size) listing)
        | Inr (dir, entries, parent, mdFiles) \<Rightarrow> size_list size entries)", goal_cases)
  case 1
  then show ?case by simp
next
  case (2 dir entries parent mdFiles)
  then show ?case by (simp add: size_sortSlice)
next
  case (3 dir entry rest parent mdFiles)
  then show ?case by simp
next
  case (4 dir entry rest parent mdFiles)
  then show ?case by (cases entry) simp_all
qed (simp_all)

definition rootNode :: FileNode where
  "rootNode = FileNode ''.'' ''.'' True []"

text \<open>\<open>rescanDirectory\<close> with \<open>rootDir = "."\<close>, on the listing of the root.\<close>

definition rescanDirectory :: "fsnode list option \<Rightarrow> bool \<times> FileNode \<times> string list" where
  "rescanDirectory listing = scanDirectory ''.'' listing rootNode []"

subsection \<open>Sorting\<close>

definition entryKey :: "fsnode \<Rightarrow> bool \<times> string" where
  "entryKey e = (entryIsDir e, entryName e)"

definition nodeKey :: "FileNode \<Rightarrow> bool \<times> string" where
  "nodeKey n = (IsDir n, Name n)"

text \<open>
  The order of the children: a directory stands before a file, and two directories or
  two files stand in the order of their names.
\<close>

definition keyOrder :: "bool \<times> string \<Rightarrow> bool \<times> string \<Rightarrow> bool" where
  "keyOrder a b = ((fst a \<and> \<not> fst b) \<or> (fst a = fst b \<and> snd a \<le> snd b))"

definition childOrder :: "FileNode \<Rightarrow> FileNode \<Rightarrow> bool" where
  "childOrder a b = ((IsDir a \<and> \<not> IsDir b) \<or> (IsDir a = IsDir b \<and> Name a \<le> Name b))"

lemma childOrder_key: "childOrder a b = keyOrder (nodeKey a) (nodeKey b)"
  by (simp add: childOrder_def keyOrder_def nodeKey_def)

lemma keyOrder_trans: "keyOrder a b \<Longrightarrow> keyOrder b c \<Longrightarrow> keyOrder a c"
  by (auto simp: keyOrder_def)

lemma entryLess_keyOrder: "entryLess a b \<Longrightarrow> keyOrder (entryKey a) (entryKey b)"
  by (auto simp: entryLess_def keyOrder_def entryKey_def split: if_splits)

lemma not_entryLess_keyOrder: "\<not> entryLess a b \<Longrightarrow> keyOrder (entryKey b) (entryKey a)"
  by (auto simp: entryLess_def keyOrder_def entryKey_def split: if_splits)

lemma set_insertBy: "set (insertBy lt x xs) = insert x (set xs)"
  by (induction xs) auto

lemma set_sortSlice: "set (sortSlice lt xs) = set xs"
  unfolding sortSlice_def by (induction xs) (auto simp: set_insertBy)

lemma sorted_insertBy:
  "sorted_wrt (\<lambda>a b. keyOrder (entryKey a) (entryKey b)) xs \<Longrightarrow>
   sorted_wrt (\<lambda>a b. keyOrder (entryKey a) (entryKey b)) (insertBy entryLess x xs)"
proof (induction xs)
  case Nil
  then show ?case by simp
next
  case (Cons y ys)
  show ?case
  proof (cases "entryLess x y")
    case True
    have "keyOrder (entryKey x) (entryKey z)" if "z \<in> set (y # ys)" for z
    proof (cases "z = y")
      case True
      then show ?thesis using \<open>entryLess x y\<close> entryLess_keyOrder by simp
    next
      case False
      then have "keyOrder (entryKey y) (entryKey z)" using Cons.prems that by auto
      then show ?thesis using entryLess_keyOrder[OF \<open>entryLess x y\<close>] keyOrder_trans by blast
    qed
    with True Cons.prems show ?thesis by auto
  next
    case False
    then have "keyOrder (entryKey y) (entryKey x)" by (rule not_entryLess_keyOrder)
    with False Cons show ?thesis by (auto simp: set_insertBy)
  qed
qed

lemma sorted_sortSlice:
  "sorted_wrt (\<lambda>a b. keyOrder (entryKey a) (entryKey b)) (sortSlice entryLess xs)"
  unfolding sortSlice_def by (induction xs) (auto intro: sorted_insertBy)

lemma subseq_subset: "subseq xs ys \<Longrightarrow> set xs \<subseteq> set ys"
  by (induction rule: list_emb.induct) auto

lemma sorted_wrt_subseq: "subseq xs ys \<Longrightarrow> sorted_wrt P ys \<Longrightarrow> sorted_wrt P xs"
proof (induction rule: list_emb.induct)
  case (list_emb_Nil ys)
  then show ?case by simp
next
  case (list_emb_Cons xs ys y)
  then show ?case by simp
next
  case (list_emb_Cons2 x y xs ys)
  have xy: "x = y" using list_emb_Cons2.hyps(1) .
  have s: "\<forall>z \<in> set ys. P y z" and t: "sorted_wrt P ys"
    using list_emb_Cons2.prems by simp_all
  have "set xs \<subseteq> set ys" using list_emb_Cons2.hyps(2) by (rule subseq_subset)
  with s xy have "\<forall>z \<in> set xs. P x z" by blast
  moreover have "sorted_wrt P xs" using list_emb_Cons2.IH t by simp
  ultimately show ?case by simp
qed

subsection \<open>The shape of a scanned tree\<close>

text \<open>
  \<open>goodNode\<close> is what the loop attaches: a directory with at least one child or a
  markdown file without children. \<open>goodTree\<close>: the children of every node of the tree are
  such nodes, in the order of \<open>childOrder\<close>.
\<close>

definition goodNode :: "FileNode \<Rightarrow> bool" where
  "goodNode c = (if IsDir c then Children c \<noteq> [] else isMarkdown (Name c) \<and> Children c = [])"

fun goodTree :: "FileNode \<Rightarrow> bool" where
  "goodTree (FileNode name path isDir children) =
     (sorted_wrt childOrder children \<and> (\<forall>c \<in> set children. goodNode c \<and> goodTree c))"

text \<open>All nodes below a node, and the eligible markdown files below an entry.\<close>

fun descendants :: "FileNode \<Rightarrow> FileNode list" where
  "descendants (FileNode name path isDir children) =
     concat (map (\<lambda>c. c # descendants c) children)"

fun mdBelow :: "FileNode \<Rightarrow> bool" where
  "mdBelow (FileNode name path isDir children) =
     (\<exists>c \<in> set children. (\<not> IsDir c \<and> isMarkdown (Name c)) \<or> mdBelow c)"

fun hasMarkdown :: "fsnode \<Rightarrow> bool" where
  "hasMarkdown (File name) = isMarkdown name"
| "hasMarkdown (Directory name None) = False"
| "hasMarkdown (Directory name (Some entries)) = (\<exists>e \<in> set entries. hasMarkdown e)"

definition extend :: "FileNode \<Rightarrow> FileNode list \<Rightarrow> FileNode" where
  "extend parent ns = FileNode (Name parent) (Path parent) (IsDir parent) (Children parent @ ns)"

lemma extend_Nil [simp]: "extend parent [] = parent"
  by (simp add: extend_def)

lemma extend_extend [simp]: "extend (extend parent ns) ms = extend parent (ns @ ms)"
  by (simp add: extend_def)

lemma addChild_extend: "addChild parent n = extend parent [n]"
  by (simp add: addChild_def extend_def)

text \<open>What the loop body does with one entry.\<close>

definition entryDone :: "fsnode \<Rightarrow> bool" where
  "entryDone e = (\<forall>dir rest parent mdFiles. \<exists>ns fs.
      scanEntries dir (e # rest) parent mdFiles
        = scanEntries dir rest (extend parent ns) (mdFiles @ fs)
      \<and> (ns = [] \<or> (\<exists>n. ns = [n] \<and> nodeKey n = entryKey e \<and> goodNode n \<and> goodTree n))
      \<and> (\<not> hasMarkdown e \<longrightarrow> ns = [] \<and> fs = []))"

lemma scanEntries_all:
  assumes "\<forall>e \<in> set es. entryDone e"
  shows "\<exists>ns fs. scanEntries dir es parent mdFiles = (extend parent ns, mdFiles @ fs)
          \<and> subseq (map nodeKey ns) (map entryKey es)
          \<and> (\<forall>n \<in> set ns. goodNode n \<and> goodTree n)
          \<and> ((\<forall>e \<in> set es. \<not> hasMarkdown e) \<longrightarrow> ns = [] \<and> fs = [])"
  using assms
proof (induction es arbitrary: parent mdFiles)
  case Nil
  show ?case
    by (rule exI[of _ "[]"], rule exI[of _ "[]"]) simp
next
  case (Cons e es)
  from Cons.prems have ed: "entryDone e" and ih: "\<forall>e \<in> set es. entryDone e" by simp_all
  from ed[unfolded entryDone_def, rule_format, of dir es parent mdFiles] obtain ns fs where
    1: "scanEntries dir (e # es) parent mdFiles = scanEntries dir es (extend parent ns) (mdFiles @ fs)" and
    2: "ns = [] \<or> (\<exists>n. ns = [n] \<and> nodeKey n = entryKey e \<and> goodNode n \<and> goodTree n)" and
    3: "\<not> hasMarkdown e \<longrightarrow> ns = [] \<and> fs = []"
    by blast
  from Cons.IH[OF ih, of "extend parent ns" "mdFiles @ fs"] obtain ms gs where
    4: "scanEntries dir es (extend parent ns) (mdFiles @ fs) = (extend (extend parent ns) ms, (mdFiles @ fs) @ gs)" and
    5: "subseq (map nodeKey ms) (map entryKey es)" and
    6: "\<forall>n \<in> set ms. goodNode n \<and> goodTree n" and
    7: "(\<forall>e \<in> set es. \<not> hasMarkdown e) \<longrightarrow> ms = [] \<and> gs = []"
    by blast
  have a: "scanEntries dir (e # es) parent mdFiles = (extend parent (ns @ ms), mdFiles @ (fs @ gs))"
    using 1 4 by simp
  have b: "subseq (map nodeKey (ns @ ms)) (map entryKey (e # es))"
  proof (cases "ns = []")
    case True
    then show ?thesis using 5 by (simp add: list_emb_Cons)
  next
    case False
    with 2 obtain n where "ns = [n]" "nodeKey n = entryKey e" by blast
    then show ?thesis using 5 by simp
  qed
  have c: "\<forall>n \<in> set (ns @ ms). goodNode n \<and> goodTree n"
    using 2 6 by auto
  have d: "(\<forall>x \<in> set (e # es). \<not> hasMarkdown x) \<longrightarrow> ns @ ms = [] \<and> fs @ gs = []"
    using 3 7 by simp
  show ?case
    by (rule exI[of _ "ns @ ms"], rule exI[of _ "fs @ gs"]) (use a b c d in blast)
qed

lemma entryDoneI:
  assumes "\<And>dir rest parent mdFiles. \<exists>ns fs.
      scanEntries dir (e # rest) parent mdFiles
        = scanEntries dir rest (extend parent ns) (mdFiles @ fs)
      \<and> (ns = [] \<or> (\<exists>n. ns = [n] \<and> nodeKey n = entryKey e \<and> goodNode n \<and> goodTree n))
      \<and> (\<not> hasMarkdown e \<longrightarrow> ns = [] \<and> fs = [])"
  shows "entryDone e"
  unfolding entryDone_def using assms by blast

lemma entry_nothing:
  assumes "scanEntries dir (e # rest) parent mdFiles = scanEntries dir rest parent mdFiles"
  shows "\<exists>ns fs.
      scanEntries dir (e # rest) parent mdFiles
        = scanEntries dir rest (extend parent ns) (mdFiles @ fs)
      \<and> (ns = [] \<or> (\<exists>n. ns = [n] \<and> nodeKey n = entryKey e \<and> goodNode n \<and> goodTree n))
      \<and> (\<not> hasMarkdown e \<longrightarrow> ns = [] \<and> fs = [])"
proof -
  have "scanEntries dir (e # rest) parent mdFiles
        = scanEntries dir rest (extend parent []) (mdFiles @ [])"
    using assms by (simp only: extend_Nil append_Nil2)
  then show ?thesis by blast
qed

lemma entryDone_File: "entryDone (File name)"
proof (rule entryDoneI)
  fix dir rest parent mdFiles
  let ?e = "File name"
  let ?node = "FileNode name (entryPath dir name) False []"
  show "\<exists>ns fs.
      scanEntries dir (?e # rest) parent mdFiles
        = scanEntries dir rest (extend parent ns) (mdFiles @ fs)
      \<and> (ns = [] \<or> (\<exists>n. ns = [n] \<and> nodeKey n = entryKey ?e \<and> goodNode n \<and> goodTree n))
      \<and> (\<not> hasMarkdown ?e \<longrightarrow> ns = [] \<and> fs = [])"
  proof (cases "\<not> skipped ?e \<and> isMarkdown name")
    case False
    then have "scanEntries dir (?e # rest) parent mdFiles = scanEntries dir rest parent mdFiles"
      by (auto simp: Let_def)
    then show ?thesis by (rule entry_nothing)
  next
    case True
    then have 1: "scanEntries dir (?e # rest) parent mdFiles
          = scanEntries dir rest (extend parent [?node]) (mdFiles @ [entryPath dir name])"
      by (simp add: Let_def addChild_extend)
    have 2: "nodeKey ?node = entryKey ?e" by (simp add: nodeKey_def entryKey_def)
    have 3: "goodNode ?node" using True by (simp add: goodNode_def)
    have 4: "goodTree ?node" by simp
    have 5: "hasMarkdown ?e" using True by simp
    show ?thesis
      by (rule exI[of _ "[?node]"], rule exI[of _ "[entryPath dir name]"]) (use 1 2 3 4 5 in blast)
  qed
qed

lemma entryDone_Directory:
  assumes ih: "\<And>es e. listing = Some es \<Longrightarrow> e \<in> set es \<Longrightarrow> entryDone e"
  shows "entryDone (Directory name listing)"
proof (rule entryDoneI)
  fix dir rest parent mdFiles
  let ?e = "Directory name listing"
  let ?path = "entryPath dir name"
  let ?node = "FileNode name ?path True []"
  show "\<exists>ns fs.
      scanEntries dir (?e # rest) parent mdFiles
        = scanEntries dir rest (extend parent ns) (mdFiles @ fs)
      \<and> (ns = [] \<or> (\<exists>n. ns = [n] \<and> nodeKey n = entryKey ?e \<and> goodNode n \<and> goodTree n))
      \<and> (\<not> hasMarkdown ?e \<longrightarrow> ns = [] \<and> fs = [])"
  proof (cases "skipped ?e")
    case True
    then have "scanEntries dir (?e # rest) parent mdFiles = scanEntries dir rest parent mdFiles"
      by (simp add: Let_def)
    then show ?thesis by (rule entry_nothing)
  next
    case ns: False
    show ?thesis
    proof (cases listing)
      case None
      then have "scanEntries dir (?e # rest) parent mdFiles = scanEntries dir rest parent mdFiles"
        using ns by (simp add: Let_def)
      then show ?thesis by (rule entry_nothing)
    next
      case (Some es)
      have "\<forall>e \<in> set (sortSlice entryLess es). entryDone e"
        using ih[OF Some] by (simp add: set_sortSlice)
      from scanEntries_all[OF this, of ?path ?node mdFiles] obtain cs fs where
        1: "scanEntries ?path (sortSlice entryLess es) ?node mdFiles = (extend ?node cs, mdFiles @ fs)" and
        2: "subseq (map nodeKey cs) (map entryKey (sortSlice entryLess es))" and
        3: "\<forall>n \<in> set cs. goodNode n \<and> goodTree n" and
        4: "(\<forall>e \<in> set (sortSlice entryLess es). \<not> hasMarkdown e) \<longrightarrow> cs = [] \<and> fs = []"
        by blast
      have ex: "extend ?node cs = FileNode name ?path True cs" by (simp add: extend_def)
      have sd: "scanDirectory ?path listing ?node mdFiles = (False, FileNode name ?path True cs, mdFiles @ fs)"
        using Some 1 ex by simp
      have nm: "\<not> hasMarkdown ?e \<longrightarrow> cs = [] \<and> fs = []"
        using 4 Some by (simp add: set_sortSlice)
      show ?thesis
      proof (cases "cs = []")
        case True
        have 5: "scanEntries dir (?e # rest) parent mdFiles
                 = scanEntries dir rest (extend parent []) (mdFiles @ fs)"
          using ns sd True by (simp add: Let_def)
        show ?thesis
          by (rule exI[of _ "[]"], rule exI[of _ fs]) (use 5 nm in blast)
      next
        case False
        let ?n = "FileNode name ?path True cs"
        have 5: "scanEntries dir (?e # rest) parent mdFiles
                 = scanEntries dir rest (extend parent [?n]) (mdFiles @ fs)"
          using ns sd False by (simp add: Let_def addChild_extend)
        have 6: "nodeKey ?n = entryKey ?e" by (simp add: nodeKey_def entryKey_def)
        have 7: "goodNode ?n" using False by (simp add: goodNode_def)
        have "sorted_wrt keyOrder (map entryKey (sortSlice entryLess es))"
          using sorted_sortSlice[of es] by (simp add: sorted_wrt_map)
        then have "sorted_wrt keyOrder (map nodeKey cs)"
          using 2 sorted_wrt_subseq by blast
        then have "sorted_wrt childOrder cs"
          by (simp add: sorted_wrt_map childOrder_key[abs_def])
        then have 8: "goodTree ?n" using 3 by simp
        have 9: "hasMarkdown ?e" using nm False by blast
        show ?thesis
          by (rule exI[of _ "[?n]"], rule exI[of _ fs]) (use 5 6 7 8 9 in blast)
      qed
    qed
  qed
qed

lemma entryDone_all: "entryDone e"
proof (induction e)
  case (File name)
  show ?case by (rule entryDone_File)
next
  case (Directory name listing)
  show ?case
  proof (rule entryDone_Directory)
    fix es e assume "listing = Some es" "e \<in> set es"
    then show "entryDone e" using Directory by simp
  qed
qed

text \<open>The whole scan.\<close>

lemma scanDirectory_Some:
  "\<exists>cs fs. scanDirectory dir (Some es) parent mdFiles = (False, extend parent cs, mdFiles @ fs)
     \<and> sorted_wrt childOrder cs
     \<and> (\<forall>n \<in> set cs. goodNode n \<and> goodTree n)
     \<and> ((\<forall>e \<in> set es. \<not> hasMarkdown e) \<longrightarrow> cs = [] \<and> fs = [])"
proof -
  have "\<forall>e \<in> set (sortSlice entryLess es). entryDone e" using entryDone_all by blast
  from scanEntries_all[OF this, of dir parent mdFiles] obtain cs fs where
    1: "scanEntries dir (sortSlice entryLess es) parent mdFiles = (extend parent cs, mdFiles @ fs)" and
    2: "subseq (map nodeKey cs) (map entryKey (sortSlice entryLess es))" and
    3: "\<forall>n \<in> set cs. goodNode n \<and> goodTree n" and
    4: "(\<forall>e \<in> set (sortSlice entryLess es). \<not> hasMarkdown e) \<longrightarrow> cs = [] \<and> fs = []"
    by blast
  have "sorted_wrt keyOrder (map entryKey (sortSlice entryLess es))"
    using sorted_sortSlice[of es] by (simp add: sorted_wrt_map)
  then have "sorted_wrt keyOrder (map nodeKey cs)"
    using 2 sorted_wrt_subseq by blast
  then have 5: "sorted_wrt childOrder cs"
    by (simp add: sorted_wrt_map childOrder_key[abs_def])
  have 6: "scanDirectory dir (Some es) parent mdFiles = (False, extend parent cs, mdFiles @ fs)"
    using 1 by simp
  have 7: "(\<forall>e \<in> set es. \<not> hasMarkdown e) \<longrightarrow> cs = [] \<and> fs = []"
    using 4 by (simp add: set_sortSlice)
  show ?thesis
    by (rule exI[of _ cs], rule exI[of _ fs]) (use 3 5 6 7 in blast)
qed

lemma rescanDirectory_goodTree:
  assumes "rescanDirectory listing = (err, tree, files)"
  shows "goodTree tree"
proof (cases listing)
  case None
  with assms have "tree = rootNode" by (simp add: rescanDirectory_def)
  then show ?thesis by (simp add: rootNode_def)
next
  case (Some es)
  from scanDirectory_Some[of "''.''" es rootNode "[]"] obtain cs fs where
    1: "scanDirectory ''.'' (Some es) rootNode [] = (False, extend rootNode cs, [] @ fs)" and
    2: "sorted_wrt childOrder cs" and
    3: "\<forall>n \<in> set cs. goodNode n \<and> goodTree n"
    by blast
  from 1 assms Some have "tree = FileNode ''.'' ''.'' True cs"
    by (simp add: rescanDirectory_def rootNode_def extend_def)
  with 2 3 show ?thesis by simp
qed

lemma goodTree_mdBelow:
  "goodTree n \<Longrightarrow> Children n \<noteq> [] \<Longrightarrow> mdBelow n"
proof (induction n)
  case (FileNode name path isDir children)
  from FileNode.prems(2) obtain c cs where cs: "children = c # cs" by (cases children) auto
  have g: "goodNode c" and t: "goodTree c" using FileNode.prems(1) cs by simp_all
  show ?case
  proof (cases "IsDir c")
    case True
    then have "Children c \<noteq> []" using g by (simp add: goodNode_def)
    then have "mdBelow c" using FileNode.IH[of c] t cs by simp
    then show ?thesis using cs by auto
  next
    case False
    then have "isMarkdown (Name c)" using g by (simp add: goodNode_def)
    then show ?thesis using cs False by auto
  qed
qed

lemma goodTree_descendants:
  "goodTree t \<Longrightarrow> n \<in> set (descendants t) \<Longrightarrow> goodNode n \<and> goodTree n"
proof (induction t)
  case (FileNode name path isDir children)
  from FileNode.prems(2) obtain c where c: "c \<in> set children" and n: "n = c \<or> n \<in> set (descendants c)"
    by auto
  have "goodNode c \<and> goodTree c" using FileNode.prems(1) c by simp
  with n FileNode.IH[OF c] show ?case by blast
qed

lemma goodTree_sorted: "goodTree n \<Longrightarrow> sorted_wrt childOrder (Children n)"
  by (cases n) simp

subsection \<open>Empty branches\<close>

text \<open>
  C8: a directory with no eligible markdown file anywhere beneath it produces no node
  (and no entry of the file list): the loop goes on with the parent and the list as they
  were; a scan of a root without markdown files leaves the root without children. In the
  tree of every scan, each directory node has at least one child, and a markdown file
  node somewhere beneath it.
\<close>

theorem scan_prunes_empty_branches:
  "(\<not> hasMarkdown (Directory name listing) \<longrightarrow>
      scanEntries dir (Directory name listing # rest) parent mdFiles
        = scanEntries dir rest parent mdFiles)
   \<and> ((\<forall>e \<in> set es. \<not> hasMarkdown e) \<longrightarrow> rescanDirectory (Some es) = (False, rootNode, []))
   \<and> (rescanDirectory root = (err, tree, files) \<longrightarrow>
        (\<forall>n \<in> set (descendants tree). IsDir n \<longrightarrow> Children n \<noteq> [] \<and> mdBelow n))"
proof (intro conjI)
  show "\<not> hasMarkdown (Directory name listing) \<longrightarrow>
      scanEntries dir (Directory name listing # rest) parent mdFiles
        = scanEntries dir rest parent mdFiles"
  proof
    assume nm: "\<not> hasMarkdown (Directory name listing)"
    from entryDone_all[of "Directory name listing", unfolded entryDone_def, rule_format,
        of dir rest parent mdFiles]
    obtain ns fs where
      "scanEntries dir (Directory name listing # rest) parent mdFiles
         = scanEntries dir rest (extend parent ns) (mdFiles @ fs)"
      "\<not> hasMarkdown (Directory name listing) \<longrightarrow> ns = [] \<and> fs = []"
      by blast
    with nm show "scanEntries dir (Directory name listing # rest) parent mdFiles
          = scanEntries dir rest parent mdFiles"
      by simp
  qed
next
  show "(\<forall>e \<in> set es. \<not> hasMarkdown e) \<longrightarrow> rescanDirectory (Some es) = (False, rootNode, [])"
  proof
    assume "\<forall>e \<in> set es. \<not> hasMarkdown e"
    with scanDirectory_Some[of "''.''" es rootNode "[]"]
    show "rescanDirectory (Some es) = (False, rootNode, [])"
      by (auto simp: rescanDirectory_def)
  qed
next
  show "rescanDirectory root = (err, tree, files) \<longrightarrow>
        (\<forall>n \<in> set (descendants tree). IsDir n \<longrightarrow> Children n \<noteq> [] \<and> mdBelow n)"
  proof (intro impI ballI)
    fix n
    assume r: "rescanDirectory root = (err, tree, files)"
      and n: "n \<in> set (descendants tree)" and d: "IsDir n"
    from r have "goodTree tree" by (rule rescanDirectory_goodTree)
    with n have g: "goodNode n \<and> goodTree n" using goodTree_descendants by blast
    with d have c: "Children n \<noteq> []" by (simp add: goodNode_def)
    with g show "Children n \<noteq> [] \<and> mdBelow n" using goodTree_mdBelow by blast
  qed
qed

theorem scan_prunes_empty_branches_witness:
  "\<not> hasMarkdown (Directory ''empty'' (Some [File ''x.txt'', Directory ''deep'' (Some [])]))
   \<and> scanEntries ''.''
        [Directory ''empty'' (Some [File ''x.txt'', Directory ''deep'' (Some [])]),
         Directory ''docs'' (Some [File ''a.md''])] rootNode []
       = scanEntries ''.'' [Directory ''docs'' (Some [File ''a.md''])] rootNode []
   \<and> rescanDirectory
        (Some [Directory ''empty'' (Some [File ''x.txt'', Directory ''deep'' (Some [])])])
       = (False, rootNode, [])
   \<and> rescanDirectory
        (Some [File ''b.md'', Directory ''docs'' (Some [File ''a.md'']),
               Directory ''empty'' (Some [File ''x.txt'', Directory ''deep'' (Some [])])])
       = (False,
          FileNode ''.'' ''.'' True
            [FileNode ''docs'' ''docs'' True [FileNode ''a.md'' ''docs/a.md'' False []],
             FileNode ''b.md'' ''b.md'' False []],
          [''docs/a.md'', ''b.md''])
   \<and> Children (FileNode ''docs'' ''docs'' True [FileNode ''a.md'' ''docs/a.md'' False []]) \<noteq> []
   \<and> mdBelow (FileNode ''docs'' ''docs'' True [FileNode ''a.md'' ''docs/a.md'' False []])"
proof -
  let ?empty = "Directory ''empty'' (Some [File ''x.txt'', Directory ''deep'' (Some [])])"
  let ?docs = "Directory ''docs'' (Some [File ''a.md''])"
  let ?root = "Some [File ''b.md'', ?docs, ?empty]"
  let ?dn = "FileNode ''docs'' ''docs'' True [FileNode ''a.md'' ''docs/a.md'' False []]"
  let ?tree = "FileNode ''.'' ''.'' True [?dn, FileNode ''b.md'' ''b.md'' False []]"
  note t = scan_prunes_empty_branches[of "''empty''" "Some [File ''x.txt'', Directory ''deep'' (Some [])]"
      "''.''" "[?docs]" rootNode "[]" "[?empty]" ?root False ?tree "[''docs/a.md'', ''b.md'']"]
  have h1: "\<not> hasMarkdown ?empty" by code_simp
  have h2: "\<forall>e \<in> set [?empty]. \<not> hasMarkdown e" using h1 by simp
  have h3: "rescanDirectory ?root = (False, ?tree, [''docs/a.md'', ''b.md''])" by code_simp
  have h4: "?dn \<in> set (descendants ?tree)" by simp
  have h5: "IsDir ?dn" by simp
  from t h1 have c1: "scanEntries ''.'' [?empty, ?docs] rootNode [] = scanEntries ''.'' [?docs] rootNode []"
    by blast
  from t h2 have c2: "rescanDirectory (Some [?empty]) = (False, rootNode, [])" by blast
  from t h3 h4 h5 have c3: "Children ?dn \<noteq> [] \<and> mdBelow ?dn" by blast
  from h1 c1 c2 h3 c3 show ?thesis by blast
qed

subsection \<open>The order of the children\<close>

text \<open>
  C9: in the tree of every scan, the children of every node (the root included) are in
  the order of \<open>childOrder\<close>: of two children the earlier one is a directory and the
  later one a file, or both are of the same kind and the name of the earlier one is not
  greater, in the byte-wise lexicographic order of strings.
\<close>

theorem scan_children_ordered:
  "(rescanDirectory root = (err, tree, files) \<longrightarrow>
      (\<forall>n \<in> set (tree # descendants tree).
         sorted_wrt childOrder (Children n)
         \<and> (\<forall>i j. i < j \<and> j < length (Children n) \<longrightarrow>
               (IsDir (Children n ! j) \<longrightarrow> IsDir (Children n ! i))
               \<and> (IsDir (Children n ! i) = IsDir (Children n ! j)
                    \<longrightarrow> Name (Children n ! i) \<le> Name (Children n ! j)))))
   \<and> sorted_wrt (\<lambda>a b. \<not> entryLess b a) (sortSlice entryLess es)"
proof (intro conjI)
  show "rescanDirectory root = (err, tree, files) \<longrightarrow>
      (\<forall>n \<in> set (tree # descendants tree).
         sorted_wrt childOrder (Children n)
         \<and> (\<forall>i j. i < j \<and> j < length (Children n) \<longrightarrow>
               (IsDir (Children n ! j) \<longrightarrow> IsDir (Children n ! i))
               \<and> (IsDir (Children n ! i) = IsDir (Children n ! j)
                    \<longrightarrow> Name (Children n ! i) \<le> Name (Children n ! j))))"
  proof (intro impI ballI)
    fix n
    assume r: "rescanDirectory root = (err, tree, files)"
      and n: "n \<in> set (tree # descendants tree)"
    from r have g: "goodTree tree" by (rule rescanDirectory_goodTree)
    with n have "goodTree n" using goodTree_descendants by auto
    then have s: "sorted_wrt childOrder (Children n)" by (rule goodTree_sorted)
    have "(IsDir (Children n ! j) \<longrightarrow> IsDir (Children n ! i))
               \<and> (IsDir (Children n ! i) = IsDir (Children n ! j)
                    \<longrightarrow> Name (Children n ! i) \<le> Name (Children n ! j))"
      if "i < j \<and> j < length (Children n)" for i j
    proof -
      from that have "childOrder (Children n ! i) (Children n ! j)"
        using s by (simp add: sorted_wrt_iff_nth_less)
      then show ?thesis by (auto simp: childOrder_def)
    qed
    with s show "sorted_wrt childOrder (Children n)
         \<and> (\<forall>i j. i < j \<and> j < length (Children n) \<longrightarrow>
               (IsDir (Children n ! j) \<longrightarrow> IsDir (Children n ! i))
               \<and> (IsDir (Children n ! i) = IsDir (Children n ! j)
                    \<longrightarrow> Name (Children n ! i) \<le> Name (Children n ! j)))"
      by blast
  qed
next
  have "sorted_wrt (\<lambda>a b. keyOrder (entryKey a) (entryKey b)) (sortSlice entryLess es)"
    by (rule sorted_sortSlice)
  moreover have "keyOrder (entryKey a) (entryKey b) = (\<not> entryLess b a)" for a b
    by (auto simp: keyOrder_def entryKey_def entryLess_def)
  ultimately show "sorted_wrt (\<lambda>a b. \<not> entryLess b a) (sortSlice entryLess es)" by simp
qed

theorem scan_children_ordered_witness:
  "rescanDirectory
     (Some [File ''b.md'', File ''Z.md'', Directory ''y'' (Some [File ''q.md'']),
            Directory ''x'' (Some [File ''p.md''])])
     = (False,
        FileNode ''.'' ''.'' True
          [FileNode ''x'' ''x'' True [FileNode ''p.md'' ''x/p.md'' False []],
           FileNode ''y'' ''y'' True [FileNode ''q.md'' ''y/q.md'' False []],
           FileNode ''Z.md'' ''Z.md'' False [],
           FileNode ''b.md'' ''b.md'' False []],
        [''x/p.md'', ''y/q.md'', ''Z.md'', ''b.md''])
   \<and> sorted_wrt childOrder
         [FileNode ''x'' ''x'' True [FileNode ''p.md'' ''x/p.md'' False []],
          FileNode ''y'' ''y'' True [FileNode ''q.md'' ''y/q.md'' False []],
          FileNode ''Z.md'' ''Z.md'' False [],
          FileNode ''b.md'' ''b.md'' False []]
   \<and> IsDir (FileNode ''y'' ''y'' True [FileNode ''q.md'' ''y/q.md'' False []])
   \<and> \<not> IsDir (FileNode ''Z.md'' ''Z.md'' False [])
   \<and> Name (FileNode ''Z.md'' ''Z.md'' False []) \<le> Name (FileNode ''b.md'' ''b.md'' False [])"
proof -
  let ?root = "Some [File ''b.md'', File ''Z.md'', Directory ''y'' (Some [File ''q.md'']),
            Directory ''x'' (Some [File ''p.md''])]"
  let ?cs = "[FileNode ''x'' ''x'' True [FileNode ''p.md'' ''x/p.md'' False []],
          FileNode ''y'' ''y'' True [FileNode ''q.md'' ''y/q.md'' False []],
          FileNode ''Z.md'' ''Z.md'' False [],
          FileNode ''b.md'' ''b.md'' False []]"
  let ?tree = "FileNode ''.'' ''.'' True ?cs"
  let ?files = "[''x/p.md'', ''y/q.md'', ''Z.md'', ''b.md'']"
  note t = scan_children_ordered[of ?root False ?tree ?files]
  have h: "rescanDirectory ?root = (False, ?tree, ?files)" by code_simp
  have m: "?tree \<in> set (?tree # descendants ?tree)" by simp
  from t h m have a: "sorted_wrt childOrder (Children ?tree)
         \<and> (\<forall>i j. i < j \<and> j < length (Children ?tree) \<longrightarrow>
               (IsDir (Children ?tree ! j) \<longrightarrow> IsDir (Children ?tree ! i))
               \<and> (IsDir (Children ?tree ! i) = IsDir (Children ?tree ! j)
                    \<longrightarrow> Name (Children ?tree ! i) \<le> Name (Children ?tree ! j)))"
    by blast
  then have s: "sorted_wrt childOrder ?cs" by simp
  from a have "(2::nat) < 3 \<and> 3 < length (Children ?tree) \<longrightarrow>
       (IsDir (Children ?tree ! 2) = IsDir (Children ?tree ! 3)
                    \<longrightarrow> Name (Children ?tree ! 2) \<le> Name (Children ?tree ! 3))"
    by blast
  then have n: "Name (FileNode ''Z.md'' ''Z.md'' False []) \<le> Name (FileNode ''b.md'' ''b.md'' False [])"
    by simp
  from h s n show ?thesis by simp
qed

section \<open>The build: \<open>renderMarkdownFile\<close> and \<open>generateHTML\<close>\<close>

text \<open>
  \<open>os.ReadFile\<close> and the markdown renderer (\<open>goldmark\<close>) are outside the program; they are
  parameters: \<open>readFile path\<close> and \<open>convert content\<close> return the text (\<open>Inr\<close>) or the
  message of an error (\<open>Inl\<close>). The result of \<open>renderMarkdownFile\<close> is \<open>None\<close> when the call
  panics.
\<close>

definition renderMarkdownFile ::
    "(string \<Rightarrow> string + string) \<Rightarrow> (string \<Rightarrow> string + string) \<Rightarrow> string \<Rightarrow> (string + string) option"
where
  "renderMarkdownFile readFile convert filePath =
     (case readFile filePath of
        Inl err \<Rightarrow> Some (Inl err)
      | Inr content \<Rightarrow>
         (case convert content of
            Inl err \<Rightarrow> Some (Inl err)
          | Inr buf \<Rightarrow>
              map_option Inr (processMermaidBlocks (fixImagePaths buf filePath))))"

text \<open>
  \<open>fmt.Sprintf("<p>... %v</p>", err)\<close>: the four Chinese characters of the source's
  message are written as their UTF-8 bytes.
\<close>

definition errorFragment :: "string \<Rightarrow> string" where
  "errorFragment err =
     ''<p>'' @ [CHR 0xE6, CHR 0xB8, CHR 0xB2, CHR 0xE6, CHR 0x9F, CHR 0x93,
                CHR 0xE9, CHR 0x94, CHR 0x99, CHR 0xE8, CHR 0xAF, CHR 0xAF]
     @ '': '' @ err @ ''</p>''"

text \<open>
  The loop of \<open>generateHTML\<close> over \<open>mdFiles\<close> that fills the map \<open>filesData\<close>.
\<close>

fun renderFiles ::
    "(string \<Rightarrow> string + string) \<Rightarrow> (string \<Rightarrow> string + string) \<Rightarrow> string list
     \<Rightarrow> (string \<rightharpoonup> string) \<Rightarrow> (string \<rightharpoonup> string) option"
where
  "renderFiles readFile convert [] filesData = Some filesData"
| "renderFiles readFile convert (filePath # rest) filesData =
     (case renderMarkdownFile readFile convert filePath of
        None \<Rightarrow> None
      | Some (Inl err) \<Rightarrow>
          renderFiles readFile convert rest (filesData(filePath \<mapsto> errorFragment err))
      | Some (Inr htmlContent) \<Rightarrow>
          renderFiles readFile convert rest (filesData(filePath \<mapsto> htmlContent)))"

text \<open>
  Writing the artifact. \<open>os.Create\<close> creates the file or truncates it; \<open>t.Execute\<close> then
  writes the pieces of the template's output one after the other into the open file and
  stops at the first write that fails. The failures are parameters: \<open>createFails\<close>, and
  \<open>budget\<close>, the number of writes that succeed before one fails (\<open>None\<close>: none fails). The
  first component of the result is \<open>True\<close> when an error is returned.
\<close>

fun writeChunks :: "string list \<Rightarrow> nat option \<Rightarrow> string \<Rightarrow> bool \<times> string" where
  "writeChunks [] budget file = (False, file)"
| "writeChunks (c # cs) None file = writeChunks cs None (file @ c)"
| "writeChunks (c # cs) (Some 0) file = (True, file)"
| "writeChunks (c # cs) (Some (Suc n)) file = writeChunks cs (Some n) (file @ c)"

definition writeArtifact ::
    "string \<Rightarrow> string list \<Rightarrow> bool \<Rightarrow> nat option \<Rightarrow> (string \<rightharpoonup> string)
     \<Rightarrow> bool \<times> (string \<rightharpoonup> string)"
where
  "writeArtifact outputFile chunks createFails budget files =
     (if createFails then (True, files)
      else
        (let created = files(outputFile \<mapsto> []);
             (err, content) = writeChunks chunks budget []
         in (err, created(outputFile \<mapsto> content))))"

text \<open>
  The successive contents of the destination while the artifact is written: after
  \<open>os.Create\<close> and after every write that succeeds.
\<close>

fun writeStates :: "string list \<Rightarrow> nat option \<Rightarrow> string \<Rightarrow> string list" where
  "writeStates [] budget file = [file]"
| "writeStates (c # cs) None file = file # writeStates cs None (file @ c)"
| "writeStates (c # cs) (Some 0) file = [file]"
| "writeStates (c # cs) (Some (Suc n)) file = file # writeStates cs (Some n) (file @ c)"

text \<open>
  \<open>generateHTML\<close>: the two JSON encoders and the three constant pieces of the template
  around \<open>{{.TreeJSON}}\<close> and \<open>{{.FilesJSON}}\<close> are parameters (encoding these types and
  parsing the constant template do not fail). \<open>None\<close> is a panic.
\<close>

definition generateHTML ::
    "(FileNode list \<Rightarrow> string) \<Rightarrow> ((string \<rightharpoonup> string) \<Rightarrow> string) \<Rightarrow> string \<times> string \<times> string
     \<Rightarrow> (string \<Rightarrow> string + string) \<Rightarrow> (string \<Rightarrow> string + string) \<Rightarrow> bool \<Rightarrow> nat option
     \<Rightarrow> string \<Rightarrow> FileNode \<Rightarrow> string list \<Rightarrow> (string \<rightharpoonup> string)
     \<Rightarrow> (bool \<times> (string \<rightharpoonup> string)) option"
where
  "generateHTML marshalTree marshalFiles tmpl readFile convert createFails budget
       outputFile fileTree mdFiles files =
     (let treeJSON = marshalTree (Children fileTree)
      in case renderFiles readFile convert mdFiles Map.empty of
           None \<Rightarrow> None
         | Some filesData \<Rightarrow>
            (let filesJSON = marshalFiles filesData
             in case tmpl of (t1, t2, t3) \<Rightarrow>
                  Some (writeArtifact outputFile [t1, treeJSON, t2, filesJSON, t3]
                          createFails budget files)))"

subsection \<open>One entry for every file\<close>

lemma renderMarkdownFile_cases:
  obtains (failed) err where "renderMarkdownFile readFile convert filePath = Some (Inl err)"
  | (rendered) html where "renderMarkdownFile readFile convert filePath = Some (Inr html)"
proof (cases "readFile filePath")
  case (Inl err)
  then show ?thesis using failed by (simp add: renderMarkdownFile_def)
next
  case (Inr content)
  show ?thesis
  proof (cases "convert content")
    case (Inl err)
    then show ?thesis using failed Inr by (simp add: renderMarkdownFile_def)
  next
    case inr: (Inr buf)
    obtain r where "processMermaidBlocks (fixImagePaths buf filePath) = Some r"
      using processMermaidBlocks_total by blast
    then show ?thesis using rendered Inr inr by (simp add: renderMarkdownFile_def)
  qed
qed

definition entryOf ::
    "(string \<Rightarrow> string + string) \<Rightarrow> (string \<Rightarrow> string + string) \<Rightarrow> string \<Rightarrow> string option"
where
  "entryOf readFile convert filePath =
     (case renderMarkdownFile readFile convert filePath of
        None \<Rightarrow> None
      | Some (Inl err) \<Rightarrow> Some (errorFragment err)
      | Some (Inr html) \<Rightarrow> Some html)"

lemma renderFiles_entries:
  "\<exists>m. renderFiles readFile convert fs m0 = Some m
       \<and> dom m = dom m0 \<union> set fs
       \<and> (\<forall>p. m p = (if p \<in> set fs then entryOf readFile convert p else m0 p))"
proof (induction fs arbitrary: m0)
  case Nil
  then show ?case by simp
next
  case (Cons f fs)
  obtain v where v: "entryOf readFile convert f = Some v"
    and step: "renderFiles readFile convert (f # fs) m0 = renderFiles readFile convert fs (m0(f \<mapsto> v))"
    by (cases rule: renderMarkdownFile_cases[of readFile convert f]) (simp_all add: entryOf_def)
  from Cons.IH[of "m0(f \<mapsto> v)"] obtain m where
    1: "renderFiles readFile convert fs (m0(f \<mapsto> v)) = Some m" and
    2: "dom m = dom (m0(f \<mapsto> v)) \<union> set fs" and
    3: "\<forall>p. m p = (if p \<in> set fs then entryOf readFile convert p else (m0(f \<mapsto> v)) p)"
    by blast
  have a: "renderFiles readFile convert (f # fs) m0 = Some m" using step 1 by simp
  have b: "dom m = dom m0 \<union> set (f # fs)" using 2 by auto
  have c: "\<forall>p. m p = (if p \<in> set (f # fs) then entryOf readFile convert p else m0 p)"
    using 3 v by auto
  from a b c show ?case by blast
qed

lemma generateHTML_result:
  "\<exists>filesData.
     renderFiles readFile convert mdFiles Map.empty = Some filesData
     \<and> generateHTML marshalTree marshalFiles (t1, t2, t3) readFile convert createFails budget
           outputFile fileTree mdFiles files
         = Some (writeArtifact outputFile
                   [t1, marshalTree (Children fileTree), t2, marshalFiles filesData, t3]
                   createFails budget files)"
proof -
  from renderFiles_entries[of readFile convert mdFiles Map.empty] obtain m where
    "renderFiles readFile convert mdFiles Map.empty = Some m" by blast
  then show ?thesis by (simp add: generateHTML_def)
qed

text \<open>
  C7: after the loop over the markdown files the scanner found, the map of rendered
  documents has an entry for exactly these files; the loop never stops early: a file
  whose read or rendering fails gets the error fragment with the message of its error,
  every other file gets its post-processed HTML, whatever happens to the other files.
\<close>

theorem renderFiles_one_entry_each:
  "\<exists>filesData.
      renderFiles readFile convert mdFiles Map.empty = Some filesData
      \<and> dom filesData = set mdFiles
      \<and> (\<forall>filePath \<in> set mdFiles.
            (\<exists>err. renderMarkdownFile readFile convert filePath = Some (Inl err)
                   \<and> filesData filePath = Some (errorFragment err))
            \<or> (\<exists>html. renderMarkdownFile readFile convert filePath = Some (Inr html)
                   \<and> filesData filePath = Some html))
      \<and> (\<forall>filePath err. readFile filePath = Inl err \<longrightarrow>
            renderMarkdownFile readFile convert filePath = Some (Inl err))
      \<and> (\<forall>filePath content err. readFile filePath = Inr content \<and> convert content = Inl err \<longrightarrow>
            renderMarkdownFile readFile convert filePath = Some (Inl err))
      \<and> (\<forall>filePath content buf. readFile filePath = Inr content \<and> convert content = Inr buf \<longrightarrow>
            renderMarkdownFile readFile convert filePath
              = map_option Inr (processMermaidBlocks (fixImagePaths buf filePath)))"
proof -
  from renderFiles_entries[of readFile convert mdFiles Map.empty] obtain m where
    1: "renderFiles readFile convert mdFiles Map.empty = Some m" and
    2: "dom m = dom (Map.empty :: string \<rightharpoonup> string) \<union> set mdFiles" and
    3: "\<forall>p. m p = (if p \<in> set mdFiles then entryOf readFile convert p else Map.empty p)"
    by blast
  have d: "dom m = set mdFiles" using 2 by simp
  have e: "(\<exists>err. renderMarkdownFile readFile convert p = Some (Inl err)
                   \<and> m p = Some (errorFragment err))
            \<or> (\<exists>html. renderMarkdownFile readFile convert p = Some (Inr html)
                   \<and> m p = Some html)"
    if "p \<in> set mdFiles" for p
  proof (cases rule: renderMarkdownFile_cases[of readFile convert p])
    case (failed err)
    then show ?thesis using 3 that by (simp add: entryOf_def)
  next
    case (rendered html)
    then show ?thesis using 3 that by (simp add: entryOf_def)
  qed
  have f: "\<forall>filePath err. readFile filePath = Inl err \<longrightarrow>
            renderMarkdownFile readFile convert filePath = Some (Inl err)"
    by (simp add: renderMarkdownFile_def)
  have g: "\<forall>filePath content err. readFile filePath = Inr content \<and> convert content = Inl err \<longrightarrow>
            renderMarkdownFile readFile convert filePath = Some (Inl err)"
    by (simp add: renderMarkdownFile_def)
  have h: "\<forall>filePath content buf. readFile filePath = Inr content \<and> convert content = Inr buf \<longrightarrow>
            renderMarkdownFile readFile convert filePath
              = map_option Inr (processMermaidBlocks (fixImagePaths buf filePath))"
    by (simp add: renderMarkdownFile_def)
  show ?thesis
    by (rule exI[of _ m]) (use 1 d e f g h in blast)
qed

theorem renderFiles_one_entry_each_witness:
  "\<exists>filesData.
      renderFiles
        (\<lambda>p. if p = ''gone.md'' then Inl ''open gone.md: no such file or directory''
              else Inr ''text'')
        (\<lambda>c. Inr (''<p>'' @ c @ ''</p>''))
        [''a.md'', ''gone.md'', ''b.md''] Map.empty = Some filesData
      \<and> dom filesData = {''a.md'', ''gone.md'', ''b.md''}
      \<and> filesData ''gone.md''
          = Some (errorFragment ''open gone.md: no such file or directory'')
      \<and> filesData ''a.md'' = Some ''<p>text</p>''
      \<and> filesData ''b.md'' = Some ''<p>text</p>''"
proof -
  let ?rd = "\<lambda>p. if p = ''gone.md'' then Inl ''open gone.md: no such file or directory''
              else (Inr ''text'' :: string + string)"
  let ?cv = "\<lambda>c. (Inr (''<p>'' @ c @ ''</p>'') :: string + string)"
  let ?fs = "[''a.md'', ''gone.md'', ''b.md'']"
  from renderFiles_one_entry_each[of ?rd ?cv ?fs] obtain m where
    1: "renderFiles ?rd ?cv ?fs Map.empty = Some m" and
    2: "dom m = set ?fs" and
    3: "\<forall>filePath \<in> set ?fs.
            (\<exists>err. renderMarkdownFile ?rd ?cv filePath = Some (Inl err)
                   \<and> m filePath = Some (errorFragment err))
            \<or> (\<exists>html. renderMarkdownFile ?rd ?cv filePath = Some (Inr html)
                   \<and> m filePath = Some html)" and
    4: "\<forall>filePath err. ?rd filePath = Inl err \<longrightarrow>
            renderMarkdownFile ?rd ?cv filePath = Some (Inl err)"
    by blast
  have a: "renderMarkdownFile ?rd ?cv ''a.md'' = Some (Inr ''<p>text</p>'')" by code_simp
  have "?rd ''gone.md'' = Inl ''open gone.md: no such file or directory''" by simp
  with 4 have g: "renderMarkdownFile ?rd ?cv ''gone.md''
           = Some (Inl ''open gone.md: no such file or directory'')" by blast
  have b: "renderMarkdownFile ?rd ?cv ''b.md'' = Some (Inr ''<p>text</p>'')" by code_simp
  from 3 a have ma: "m ''a.md'' = Some ''<p>text</p>''" by auto
  from 3 g have mg: "m ''gone.md'' = Some (errorFragment ''open gone.md: no such file or directory'')"
    by auto
  from 3 b have mb: "m ''b.md'' = Some ''<p>text</p>''" by auto
  from 2 have d: "dom m = {''a.md'', ''gone.md'', ''b.md''}" by simp
  show ?thesis
    by (rule exI[of _ m]) (use 1 d mg ma mb in blast)
qed

subsection \<open>The artifact on disk\<close>

lemma writeChunks_prefix:
  "\<exists>rest. cur @ concat chunks = snd (writeChunks chunks budget cur) @ rest"
proof (induction chunks budget cur rule: writeChunks.induct)
  case (1 budget cur)
  then show ?case by simp
next
  case (2 c cs cur)
  then show ?case by simp
next
  case (3 c cs cur)
  then show ?case by simp
next
  case (4 c cs n cur)
  then show ?case by simp
qed

lemma writeChunks_all: "writeChunks chunks None cur = (False, cur @ concat chunks)"
  by (induction chunks arbitrary: cur) auto

lemma writeChunks_err:
  "fst (writeChunks chunks budget cur) \<longleftrightarrow> (\<exists>n. budget = Some n \<and> n < length chunks)"
  by (induction chunks budget cur rule: writeChunks.induct) auto

lemma writeStates_prefix:
  "s \<in> set (writeStates chunks budget cur) \<Longrightarrow> prefix s (cur @ concat chunks)"
proof (induction chunks budget cur rule: writeStates.induct)
  case (1 budget cur)
  then show ?case by simp
next
  case (2 c cs cur)
  then show ?case by auto
next
  case (3 c cs cur)
  then show ?case by simp
next
  case (4 c cs n cur)
  then show ?case by auto
qed

lemma writeStates_nonempty: "writeStates chunks budget cur \<noteq> []"
  by (induction chunks budget cur rule: writeStates.induct) simp_all

lemma writeStates_last:
  "last (writeStates chunks budget cur) = snd (writeChunks chunks budget cur)"
  by (induction chunks budget cur rule: writeStates.induct) (simp_all add: writeStates_nonempty)

text \<open>
  C1 (as amended): the artifact is written in place. When \<open>os.Create\<close> fails, the files
  are as they were. Once it has succeeded the previous content of the destination is
  gone: the destination is empty, then holds longer and longer beginnings of the new
  document, and the whole document when no write fails; when a write fails the error is
  returned and the destination keeps the beginning written so far. No other file
  changes.
\<close>

theorem writeArtifact_in_place:
  "writeArtifact outputFile chunks True budget files = (True, files)
   \<and> writeArtifact outputFile chunks False None files
       = (False, files(outputFile \<mapsto> concat chunks))
   \<and> (\<exists>content. snd (writeArtifact outputFile chunks False budget files)
                    = files(outputFile \<mapsto> content)
                 \<and> prefix content (concat chunks)
                 \<and> content = last (writeStates chunks budget []))
   \<and> hd (writeStates chunks budget []) = []
   \<and> (\<forall>s \<in> set (writeStates chunks budget []). prefix s (concat chunks))
   \<and> (fst (writeArtifact outputFile chunks False budget files)
        \<longleftrightarrow> (\<exists>n. budget = Some n \<and> n < length chunks))
   \<and> (p \<noteq> outputFile \<longrightarrow>
        snd (writeArtifact outputFile chunks createFails budget files) p = files p)"
proof (intro conjI)
  show "writeArtifact outputFile chunks True budget files = (True, files)"
    by (simp add: writeArtifact_def)
  show "writeArtifact outputFile chunks False None files
       = (False, files(outputFile \<mapsto> concat chunks))"
    by (simp add: writeArtifact_def writeChunks_all)
  show "\<exists>content. snd (writeArtifact outputFile chunks False budget files)
                    = files(outputFile \<mapsto> content)
                 \<and> prefix content (concat chunks)
                 \<and> content = last (writeStates chunks budget [])"
  proof (rule exI[of _ "snd (writeChunks chunks budget [])"], intro conjI)
    show "snd (writeArtifact outputFile chunks False budget files)
          = files(outputFile \<mapsto> snd (writeChunks chunks budget []))"
      by (simp add: writeArtifact_def split: prod.splits)
    show "prefix (snd (writeChunks chunks budget [])) (concat chunks)"
      using writeChunks_prefix[of "[]" chunks budget] by (auto simp: prefix_def)
    show "snd (writeChunks chunks budget []) = last (writeStates chunks budget [])"
      by (simp add: writeStates_last)
  qed
  show "hd (writeStates chunks budget []) = []"
    by (cases "(chunks, budget, []::string)" rule: writeStates.cases) auto
  show "\<forall>s \<in> set (writeStates chunks budget []). prefix s (concat chunks)"
    using writeStates_prefix[of _ chunks budget "[]"] by simp
  show "fst (writeArtifact outputFile chunks False budget files)
        \<longleftrightarrow> (\<exists>n. budget = Some n \<and> n < length chunks)"
    using writeChunks_err[of chunks budget "[]"]
    by (cases "writeChunks chunks budget []") (simp add: writeArtifact_def)
  show "p \<noteq> outputFile \<longrightarrow>
        snd (writeArtifact outputFile chunks createFails budget files) p = files p"
    by (simp add: writeArtifact_def split: prod.splits)
qed

theorem writeArtifact_in_place_witness:
  "writeArtifact ''index.html'' [''<html>'', ''DATA'', ''</html>''] False None
      (Map.empty(''index.html'' \<mapsto> ''OLD'', ''a.md'' \<mapsto> ''# a''))
     = (False, (Map.empty(''index.html'' \<mapsto> ''OLD'', ''a.md'' \<mapsto> ''# a''))
                 (''index.html'' \<mapsto> ''<html>DATA</html>''))
   \<and> writeStates [''<html>'', ''DATA'', ''</html>''] None []
       = [[], ''<html>'', ''<html>DATA'', ''<html>DATA</html>'']
   \<and> prefix ''<html>DATA'' (concat [''<html>'', ''DATA'', ''</html>''])
   \<and> ''a.md'' \<noteq> ''index.html''
   \<and> snd (writeArtifact ''index.html'' [''<html>'', ''DATA'', ''</html>''] False None
            (Map.empty(''index.html'' \<mapsto> ''OLD'', ''a.md'' \<mapsto> ''# a''))) ''a.md''
       = Some ''# a''"
proof -
  let ?chunks = "[''<html>'', ''DATA'', ''</html>'']"
  let ?files = "Map.empty(''index.html'' \<mapsto> ''OLD'', ''a.md'' \<mapsto> ''# a'')"
  note t = writeArtifact_in_place[of "''index.html''" ?chunks None ?files "''a.md''" False]
  have s: "writeStates ?chunks None [] = [[], ''<html>'', ''<html>DATA'', ''<html>DATA</html>'']"
    by simp
  then have m: "''<html>DATA'' \<in> set (writeStates ?chunks None [])" by simp
  have n: "''a.md'' \<noteq> ''index.html''" by simp
  from t have c1: "writeArtifact ''index.html'' ?chunks False None ?files
       = (False, ?files(''index.html'' \<mapsto> concat ?chunks))" by blast
  from t m have c2: "prefix ''<html>DATA'' (concat ?chunks)" by blast
  from t n have c3: "snd (writeArtifact ''index.html'' ?chunks False None ?files) ''a.md''
       = ?files ''a.md''" by blast
  from c1 s c2 n c3 show ?thesis by simp
qed

text \<open>
  The claim as stated fails: the destination is truncated before any new content is
  written, and after a write failure it holds the beginning of the new document, not
  the previous artifact.
\<close>

theorem writeArtifact_counterexample:
  "writeArtifact ''index.html'' [''<html>'', ''DATA'', ''</html>''] False (Some 1)
      (Map.empty(''index.html'' \<mapsto> ''OLD''))
     = (True, Map.empty(''index.html'' \<mapsto> ''<html>''))
   \<and> writeStates [''<html>'', ''DATA'', ''</html>''] None []
       = [[], ''<html>'', ''<html>DATA'', ''<html>DATA</html>'']"
  by (simp add: writeArtifact_def)

end
